theory Spec2Isabelle
  imports Main
begin

section \<open>JavaScript strings and the regular expressions of \<open>utils.js\<close>\<close>

text \<open>
  A JavaScript string is a sequence of UTF-16 code units; a code unit is modelled as a
  natural number, so that the code units 8232 (U+2028), 8233 (U+2029) and 65279 (U+FEFF)
  that \<open>cleanCode\<close> mentions are representable.  \<open>js\<close> turns an ASCII
  literal into such a string.
\<close>

type_synonym jstring = "nat list"

definition js :: "string \<Rightarrow> jstring" where
  "js s = map of_char s"

text \<open>The character classes \<open>\s\<close> and \<open>.\<close> of ECMAScript, and its line terminators.\<close>

definition isLineTerminator :: "nat \<Rightarrow> bool" where
  "isLineTerminator c = (c = 10 \<or> c = 13 \<or> c = 8232 \<or> c = 8233)"

definition isWhiteSpace :: "nat \<Rightarrow> bool" where
  "isWhiteSpace c =
     (c = 9 \<or> c = 10 \<or> c = 11 \<or> c = 12 \<or> c = 13 \<or> c = 32 \<or> c = 160 \<or> c = 5760
      \<or> (8192 \<le> c \<and> c \<le> 8202) \<or> c = 8232 \<or> c = 8233 \<or> c = 8239 \<or> c = 8287
      \<or> c = 12288 \<or> c = 65279)"

definition isDot :: "nat \<Rightarrow> bool" where
  "isDot c = (\<not> isLineTerminator c)"

text \<open>
  The fragment of regular expressions the module uses.  Every starred subterm in the
  source is a single character class (\<open>\s*\<close>, \<open>.*\<close>, \<open> *\<close>, \<open>\t*\<close>), so the star is
  restricted to classes.  \<open>Bos\<close>/\<open>Eos\<close> are \<open>^\<close>/\<open>$\<close> without the \<open>m\<close> flag, \<open>Bol\<close> is \<open>^\<close> with
  it.
\<close>

datatype rx =
    Cls "nat \<Rightarrow> bool"
  | Seq rx rx
  | Alt rx rx
  | Star "nat \<Rightarrow> bool"
  | Opt rx
  | Eps
  | Bos
  | Eos
  | Bol

definition Lit :: "nat \<Rightarrow> rx" where
  "Lit c = Cls (\<lambda>d. d = c)"

fun seqs :: "rx list \<Rightarrow> rx" where
  "seqs [] = Eps"
| "seqs [r] = r"
| "seqs (r # rs) = Seq r (seqs rs)"

definition lits :: "jstring \<Rightarrow> rx" where
  "lits s = seqs (map Lit s)"

text \<open>
  The backtracking matcher: \<open>rx_ends r s i\<close> lists the end positions of the matches of
  \<open>r\<close> in \<open>s\<close> that start at \<open>i\<close>, in the order a backtracking engine tries them
  (greedy star and option, left alternative first).  The head is the match taken.
\<close>

primrec rx_ends :: "rx \<Rightarrow> jstring \<Rightarrow> nat \<Rightarrow> nat list" where
  "rx_ends (Cls p) s i = (if i < length s \<and> p (s ! i) then [Suc i] else [])"
| "rx_ends (Seq a b) s i = concat (map (rx_ends b s) (rx_ends a s i))"
| "rx_ends (Alt a b) s i = rx_ends a s i @ rx_ends b s i"
| "rx_ends (Star p) s i = rev [i ..< Suc (i + length (takeWhile p (drop i s)))]"
| "rx_ends (Opt a) s i = rx_ends a s i @ [i]"
| "rx_ends Eps s i = [i]"
| "rx_ends Bos s i = (if i = 0 then [i] else [])"
| "rx_ends Eos s i = (if i = length s then [i] else [])"
| "rx_ends Bol s i = (if i = 0 \<or> isLineTerminator (s ! (i - 1)) then [i] else [])"

text \<open>\<open>RegExp.prototype.exec\<close> from \<open>lastIndex = i\<close>: the leftmost match at or after \<open>i\<close>.\<close>

function rx_exec :: "rx \<Rightarrow> jstring \<Rightarrow> nat \<Rightarrow> (nat \<times> nat) option" where
  "rx_exec r s i =
     (if length s < i then None
      else (case rx_ends r s i of
              e # _ \<Rightarrow> Some (i, e)
            | [] \<Rightarrow> rx_exec r s (Suc i)))"
  by pat_completeness auto
termination
  by (relation "measure (\<lambda>(r, s, i). Suc (length s) - i)") auto

declare rx_exec.simps [simp del]

text \<open>\<open>str.replace(re, rep)\<close> for a regular expression without the \<open>g\<close> flag.\<close>

definition replace_first :: "rx \<Rightarrow> jstring \<Rightarrow> jstring \<Rightarrow> jstring" where
  "replace_first r rep s =
     (case rx_exec r s 0 of
        None \<Rightarrow> s
      | Some (b, e) \<Rightarrow> take b s @ rep @ drop e s)"

text \<open>
  \<open>str.replace(re, rep)\<close> with the \<open>g\<close> flag: matches are collected from \<open>lastIndex = i\<close>
  on; after an empty match \<open>lastIndex\<close> advances by one.  \<open>p\<close> is the position up to
  which the source string has been copied.
\<close>

function replace_from :: "rx \<Rightarrow> jstring \<Rightarrow> jstring \<Rightarrow> nat \<Rightarrow> nat \<Rightarrow> jstring" where
  "replace_from r rep s i p =
     (case rx_exec r s i of
        None \<Rightarrow> drop p s
      | Some (b, e) \<Rightarrow>
          (if e \<le> b
           then (if p \<le> b then take (b - p) (drop p s) @ rep @ replace_from r rep s (Suc b) b
                 else replace_from r rep s (Suc b) p)
           else (if p \<le> b then take (b - p) (drop p s) @ rep @ replace_from r rep s e e
                 else replace_from r rep s e p)))"
  by pat_completeness auto

lemma rx_exec_bounds: "rx_exec r s i = Some (b, e) \<Longrightarrow> i \<le> b \<and> b \<le> length s"
proof (induction r s i rule: rx_exec.induct)
  case (1 r s i)
  show ?case
  proof (cases "rx_ends r s i")
    case Nil
    with 1 show ?thesis
      by (subst (asm) (2) rx_exec.simps) (auto split: if_splits)
  next
    case (Cons e' es)
    with 1(2) show ?thesis
      by (subst (asm) rx_exec.simps) (auto split: if_splits)
  qed
qed

termination replace_from
proof (relation "measure (\<lambda>(r, rep, s, i, p). Suc (length s) - i)", goal_cases)
  case 1
  show ?case by simp
next
  case (2 r rep s i p x b e)
  then show ?case using rx_exec_bounds [of r s i b e] by auto
next
  case (3 r rep s i p x b e)
  then show ?case using rx_exec_bounds [of r s i b e] by auto
next
  case (4 r rep s i p x b e)
  then show ?case using rx_exec_bounds [of r s i b e] by auto
next
  case (5 r rep s i p x b e)
  then show ?case using rx_exec_bounds [of r s i b e] by auto
qed


section \<open>The code-snippet cleaner\<close>

text \<open>\<open>/\r\n?|[\n\u2028\u2029]/\<close> (13 is CR, 10 is LF)\<close>

definition rx_newline :: rx where
  "rx_newline = Alt (Seq (Lit 13) (Opt (Lit 10))) (Cls (\<lambda>c. c = 10 \<or> c = 8232 \<or> c = 8233))"

text \<open>\<open>/^\uFEFF/\<close>\<close>

definition rx_bom :: rx where
  "rx_bom = Seq Bos (Lit 65279)"

text \<open>\<open>/^function\s*\(.*\)\s*{|\(.*\)\s*=>\s*{?/\<close> (40 is \<open>(\<close>, 41 is \<open>)\<close>, 123 is \<open>{\<close>)\<close>

definition rx_header :: rx where
  "rx_header =
     Alt (seqs [Bos, lits (js ''function''), Star isWhiteSpace, Lit 40, Star isDot, Lit 41,
                Star isWhiteSpace, Lit 123])
         (seqs [Lit 40, Star isDot, Lit 41, Star isWhiteSpace, lits (js ''=>''),
                Star isWhiteSpace, Opt (Lit 123)])"

text \<open>\<open>/\s*\}$/\<close> (125 is \<open>}\<close>)\<close>

definition rx_closing :: rx where
  "rx_closing = seqs [Star isWhiteSpace, Lit 125, Eos]"

text \<open>
  \<open>str.match(/^\n?( *)/)[1].length\<close> and \<open>str.match(/^\n?(\t*)/)[1].length\<close>: the
  length of the run of \<open>c\<close> after an optional leading newline.  Both expressions always
  match.
\<close>

definition indent_width :: "nat \<Rightarrow> jstring \<Rightarrow> nat" where
  "indent_width c s =
     length (takeWhile (\<lambda>d. d = c)
       (case s of [] \<Rightarrow> [] | d # t \<Rightarrow> if d = 10 then t else s))"

text \<open>
  \<open>new RegExp('^\n?' + (tabs ? '\t' : ' ') + '{' + (tabs || spaces) + '}', 'gm')\<close>
  (9 is the tab, 32 the space)
\<close>

definition rx_indent :: "nat \<Rightarrow> nat \<Rightarrow> rx" where
  "rx_indent tabs spaces =
     seqs ([Bol, Opt (Lit 10)] @
           replicate (if tabs \<noteq> 0 then tabs else spaces) (Lit (if tabs \<noteq> 0 then 9 else 32)))"

text \<open>\<open>/^\s+|\s+$/\<close>\<close>

definition rx_trim :: rx where
  "rx_trim =
     Alt (seqs [Bos, Cls isWhiteSpace, Star isWhiteSpace])
         (seqs [Cls isWhiteSpace, Star isWhiteSpace, Eos])"

definition replace_all :: "rx \<Rightarrow> jstring \<Rightarrow> jstring \<Rightarrow> jstring" where
  "replace_all r rep s = replace_from r rep s 0 0"

definition cleanCode :: "jstring \<Rightarrow> jstring" where
  "cleanCode str0 =
     (let str1 = replace_first rx_closing []
                   (replace_first rx_header []
                     (replace_first rx_bom []
                       (replace_all rx_newline [10] str0)));
          spaces = indent_width 32 str1;
          tabs = indent_width 9 str1;
          re = rx_indent tabs spaces;
          str2 = replace_all re [] str1;
          str3 = replace_all rx_trim [] str2
      in str3)"

section \<open>The diff builder, unified mode\<close>

text \<open>\<open>str.split('\n')\<close> and \<open>lines.join('\n')\<close>\<close>

fun split_nl_aux :: "jstring \<Rightarrow> jstring \<Rightarrow> jstring list" where
  "split_nl_aux acc [] = [rev acc]"
| "split_nl_aux acc (c # cs) =
     (if c = 10 then rev acc # split_nl_aux [] cs else split_nl_aux (c # acc) cs)"

definition split_nl :: "jstring \<Rightarrow> jstring list" where
  "split_nl s = split_nl_aux [] s"

fun join_nl :: "jstring list \<Rightarrow> jstring" where
  "join_nl [] = []"
| "join_nl [l] = l"
| "join_nl (l # ls) = l @ [10] @ join_nl ls"

text \<open>\<open>line.match(re)\<close> used as a condition: is there a match anywhere in the line.\<close>

definition rx_test :: "rx \<Rightarrow> jstring \<Rightarrow> bool" where
  "rx_test r s = (rx_exec r s 0 \<noteq> None)"

text \<open>\<open>/@@/\<close> and \<open>/\\ No newline/\<close> (92 is the backslash)\<close>

definition rx_hunk :: rx where
  "rx_hunk = lits (js ''@@'')"

definition rx_no_newline :: rx where
  "rx_no_newline = lits (92 # js '' No newline'')"

text \<open>\<open>line.replace(/^(-|\+)/, '$1 ')\<close> (45 is \<open>-\<close>, 43 is \<open>+\<close>)\<close>

definition pad_marker :: "jstring \<Rightarrow> jstring" where
  "pad_marker line =
     (case line of
        [] \<Rightarrow> []
      | c # t \<Rightarrow> if c = 45 \<or> c = 43 then c # 32 # t else line)"

text \<open>The callback of \<open>map\<close>; \<open>None\<close> is the \<open>null\<close> it returns.\<close>

definition diff_line :: "jstring \<Rightarrow> jstring option" where
  "diff_line line =
     (if rx_test rx_hunk line then None
      else if rx_test rx_no_newline line then None
      else Some (pad_marker line))"

text \<open>
  \<open>diff.createPatch\<close> belongs to the external package \<open>diff\<close>; it is a parameter,
  called with the file name \<open>'string'\<close> and the two texts.  \<open>splice(4)\<close> returns the
  elements from index 4 on.
\<close>

definition createUnifiedDiff ::
  "(jstring \<Rightarrow> jstring \<Rightarrow> jstring \<Rightarrow> jstring) \<Rightarrow> jstring \<Rightarrow> jstring \<Rightarrow> jstring" where
  "createUnifiedDiff createPatch actual expected =
     join_nl (List.map_filter diff_line
       (drop 4 (split_nl (createPatch (js ''string'') actual expected))))"


section \<open>Values, raw errors and raw tests\<close>

text \<open>
  The values that \<open>actual\<close>, \<open>expected\<close>, \<open>showDiff\<close> and \<open>context\<close> may hold:
  \<open>undefined\<close>, \<open>null\<close>, booleans, numbers, strings, arrays and plain objects.
\<close>

datatype jsval =
    JUndefined
  | JNull
  | JBool bool
  | JNum int
  | JStr jstring
  | JArr "jsval list"
  | JObj "(string \<times> jsval) list"

text \<open>
  The external packages the module requires, and \<open>process.cwd()\<close>.  None of them is part
  of the repository, so they are parameters.  \<open>uuid_v4 n\<close> is the identifier that the
  \<open>n\<close>-th call of \<open>uuid.v4()\<close> returns.
\<close>

record env =
  uuid_v4 :: "nat \<Rightarrow> jstring"
  createPatch :: "jstring \<Rightarrow> jstring \<Rightarrow> jstring \<Rightarrow> jstring"
  diffWordsWithSpace :: "jstring \<Rightarrow> jstring \<Rightarrow> jsval list"
  mochaStringify :: "jsval \<Rightarrow> jstring"
  stripAnsi :: "jstring \<Rightarrow> jstring"
  stringify :: "jsval \<Rightarrow> jsval"
  cwd :: jstring

record config =
  useInlineDiffs :: bool

text \<open>A field of type \<open>option\<close> is \<open>undefined\<close> (or absent) when it is \<open>None\<close>.\<close>

record rawErr =
  e_name :: "jstring option"
  e_message :: "jstring option"
  e_actual :: jsval
  e_expected :: jsval
  e_stack :: "jstring option"
  e_showDiff :: jsval

record normErr =
  n_message :: "jstring option"
  n_estack :: "jstring option"
  n_diff :: jsval

text \<open>
  A runner test or hook.  \<open>t_fullTitle = Some r\<close>: \<open>fullTitle\<close> is a function and calling it
  returns \<open>r\<close>; \<open>None\<close>: it is not a function.  \<open>t_fn = Some src\<close>: \<open>fn\<close> is a function
  whose \<open>toString()\<close> is \<open>src\<close>.  \<open>t_parent\<close> is the address of the parent suite.
\<close>

record rawTest =
  t_title :: "jstring option"
  t_fullTitle :: "jstring option"
  t_fn :: "jstring option"
  t_body :: "jstring option"
  t_timedOut :: "bool option"
  t_duration :: "int option"
  t_state :: "jstring option"
  t_speed :: "jstring option"
  t_pending :: "bool option"
  t_context :: jsval
  t_err :: "rawErr option"
  t_parent :: "nat option"
  t_uuid :: "jstring option"
  t_type :: "jstring option"

text \<open>The object literal \<open>cleaned\<close> of \<open>cleanTest\<close>; \<open>c_err = None\<close> is the empty object.\<close>

record cleaned =
  c_title :: "jstring option"
  c_fullTitle :: "jstring option"
  c_timedOut :: "bool option"
  c_duration :: int
  c_state :: "jstring option"
  c_speed :: "jstring option"
  c_pass :: bool
  c_fail :: bool
  c_pending :: "bool option"
  c_context :: jsval
  c_code :: "jstring option"
  c_err :: "normErr option"
  c_isRoot :: "bool option"
  c_uuid :: jstring
  c_parentUUID :: "jstring option"
  c_isHook :: bool
  c_skipped :: bool

text \<open>
  An element of a suite's test and hook arrays: a runner test, or an object that
  \<open>cleanTest\<close> has produced (the \<open>tests\<close> of a suite after \<open>cleanSuite\<close>).
\<close>

datatype test = Raw rawTest | Clean cleaned

section \<open>The error normalizer\<close>

text \<open>\<open>Object.prototype.toString.call(v)\<close>, without the enclosing \<open>[object ...]\<close>\<close>

fun objToString :: "jsval \<Rightarrow> string" where
  "objToString JUndefined = ''Undefined''"
| "objToString JNull = ''Null''"
| "objToString (JBool b) = ''Boolean''"
| "objToString (JNum n) = ''Number''"
| "objToString (JStr s) = ''String''"
| "objToString (JArr xs) = ''Array''"
| "objToString (JObj ps) = ''Object''"

definition sameType :: "jsval \<Rightarrow> jsval \<Rightarrow> bool" where
  "sameType a b = (objToString a = objToString b)"

fun isString :: "jsval \<Rightarrow> bool" where
  "isString (JStr s) = True"
| "isString v = False"

text \<open>Truthiness of an optional string: \<open>undefined\<close> and \<open>''\<close> are falsy.\<close>

fun truthy_str :: "jstring option \<Rightarrow> bool" where
  "truthy_str None = False"
| "truthy_str (Some s) = (s \<noteq> [])"

text \<open>\<open>createUnifiedDiff(err)\<close> and \<open>createInlineDiff(err)\<close> read \<open>err.actual\<close> and
  \<open>err.expected\<close>, which are strings when \<open>normalizeErr\<close> calls them.\<close>

definition createUnifiedDiff_err :: "env \<Rightarrow> rawErr \<Rightarrow> jsval" where
  "createUnifiedDiff_err ev err =
     (case (e_actual err, e_expected err) of
        (JStr actual, JStr expected) \<Rightarrow> JStr (createUnifiedDiff (createPatch ev) actual expected)
      | _ \<Rightarrow> JUndefined)"

definition createInlineDiff :: "env \<Rightarrow> rawErr \<Rightarrow> jsval" where
  "createInlineDiff ev err =
     (case (e_actual err, e_expected err) of
        (JStr actual, JStr expected) \<Rightarrow> JArr (diffWordsWithSpace ev actual expected)
      | _ \<Rightarrow> JUndefined)"

text \<open>\<open>/\n.*/\<close>\<close>

definition rx_rest_lines :: rx where
  "rx_rest_lines = Seq (Lit 10) (Star isDot)"

text \<open>
  \<open>normalizeErr\<close> returns the normalized error; the second component is the raw error
  object as the call leaves it (\<open>err.actual\<close> and \<open>err.expected\<close> are assigned inside).
\<close>

definition normalizeErr :: "env \<Rightarrow> config \<Rightarrow> rawErr \<Rightarrow> normErr \<times> rawErr" where
  "normalizeErr ev cfg err =
     (let name = e_name err; message = e_message err; actual = e_actual err;
          expected = e_expected err; stack = e_stack err; showDiff = e_showDiff err;
          (errDiff, err') =
            (if showDiff \<noteq> JBool False \<and> sameType actual expected \<and> expected \<noteq> JUndefined
             then
               (let err1 = (if \<not> (isString actual \<and> isString expected)
                            then err\<lparr>e_actual := JStr (mochaStringify ev actual),
                                     e_expected := JStr (mochaStringify ev expected)\<rparr>
                            else err)
                in (if useInlineDiffs cfg then createInlineDiff ev err1
                    else createUnifiedDiff_err ev err1, err1))
             else (JUndefined, err));
          errMessage =
            (if truthy_str name \<and> truthy_str message
             then Some (the name @ js '': '' @ stripAnsi ev (the message))
             else if truthy_str stack then Some (replace_all rx_rest_lines [] (the stack))
             else None)
      in (\<lparr>n_message = errMessage,
           n_estack = (if truthy_str stack then Some (stripAnsi ev (the stack)) else stack),
           n_diff = errDiff\<rparr>, err'))"


section \<open>Suites and the store\<close>

text \<open>
  A suite object is mutated key by key and pruned, so every own property is optional:
  \<open>None\<close> is an absent key.  \<open>s_timeout\<close>, \<open>s_beforeAll\<close>, \<open>s_beforeEach\<close>,
  \<open>s_afterAll\<close> and \<open>s_afterEach\<close> are the keys \<open>_timeout\<close>, \<open>_beforeAll\<close>,
  \<open>_beforeEach\<close>, \<open>_afterAll\<close> and \<open>_afterEach\<close>.  \<open>pending\<close> is the runner's flag
  (\<open>Inl\<close>) until \<open>cleanSuite\<close> stores the pending tests there (\<open>Inr\<close>); \<open>rootEmpty\<close>
  holds \<open>undefined\<close> (\<open>Some None\<close>) when \<open>root\<close> is.  \<open>suites\<close> holds the addresses
  of the child suites.  \<open>s_others\<close> are the remaining own properties.
\<close>

record suite =
  s_title :: "jstring option"
  s_fullFile :: "jstring option"
  s_file :: "jstring option"
  s_beforeHooks :: "cleaned list option"
  s_afterHooks :: "cleaned list option"
  s_tests :: "test list option"
  s_suites :: "nat list option"
  s_passes :: "cleaned list option"
  s_failures :: "cleaned list option"
  s_pending :: "(bool + cleaned list) option"
  s_skipped :: "cleaned list option"
  s_hasBeforeHooks :: "bool option"
  s_hasAfterHooks :: "bool option"
  s_hasTests :: "bool option"
  s_hasSuites :: "bool option"
  s_totalTests :: "nat option"
  s_totalPasses :: "nat option"
  s_totalFailures :: "nat option"
  s_totalPending :: "nat option"
  s_totalSkipped :: "nat option"
  s_hasPasses :: "bool option"
  s_hasFailures :: "bool option"
  s_hasPending :: "bool option"
  s_hasSkipped :: "bool option"
  s_root :: "bool option"
  s_uuid :: "jstring option"
  s_duration :: "int option"
  s_rootEmpty :: "bool option option"
  s_timeout :: "int option"
  s_beforeAll :: "test list option"
  s_beforeEach :: "test list option"
  s_afterAll :: "test list option"
  s_afterEach :: "test list option"
  s_others :: "(string \<times> jsval) list"

type_synonym heap = "nat \<Rightarrow> suite option"

text \<open>
  The state the module works on: the suite objects, the counter
  \<open>totalTestsRegistered.total\<close>, and the number of identifiers drawn from \<open>uuid.v4()\<close>.
\<close>

record state =
  heap :: heap
  total :: int
  drawn :: nat

text \<open>
  A call that throws returns \<open>Inl\<close> of the error together with the state as the throw
  leaves it: what had been assigned before stays assigned.
\<close>

datatype error = TypeError

section \<open>The test normalizer\<close>

text \<open>
  What \<open>cleanTest\<close> reads from an object that \<open>cleanTest\<close> produced: it has no \<open>fn\<close>,
  \<open>body\<close>, \<open>parent\<close> or \<open>type\<close>, its \<open>fullTitle\<close> is a string, not a function, and its
  \<open>err\<close> is an object with at most \<open>message\<close>, \<open>estack\<close> and \<open>diff\<close>.
\<close>

definition raw_view :: "cleaned \<Rightarrow> rawTest" where
  "raw_view c =
     \<lparr>t_title = c_title c, t_fullTitle = None, t_fn = None, t_body = None,
      t_timedOut = c_timedOut c, t_duration = Some (c_duration c), t_state = c_state c,
      t_speed = c_speed c, t_pending = c_pending c, t_context = c_context c,
      t_err = Some \<lparr>e_name = None,
                     e_message = (case c_err c of None \<Rightarrow> None | Some ne \<Rightarrow> n_message ne),
                     e_actual = JUndefined, e_expected = JUndefined, e_stack = None,
                     e_showDiff = JUndefined\<rparr>,
      t_parent = None, t_uuid = Some (c_uuid c), t_type = None\<rparr>"

text \<open>
  \<open>cleanTest\<close> on a runner test.  It returns the object \<open>cleaned\<close>, the raw test as the
  call leaves it, and the number of identifiers drawn.  \<open>h\<close> is the store in which
  \<open>test.parent\<close> is looked up.
\<close>

definition cleanTest_raw ::
  "env \<Rightarrow> config \<Rightarrow> heap \<Rightarrow> nat \<Rightarrow> rawTest \<Rightarrow> cleaned \<times> rawTest \<times> nat" where
  "cleanTest_raw ev cfg h n test =
     (let code = (case t_fn test of Some src \<Rightarrow> Some src | None \<Rightarrow> t_body test);
          (err, test') =
            (case t_err test of
               None \<Rightarrow> (None, test)
             | Some e \<Rightarrow> (let (ne, e') = normalizeErr ev cfg e
                         in (Some ne, test\<lparr>t_err := Some e'\<rparr>)));
          parent = (case t_parent test of None \<Rightarrow> None | Some a \<Rightarrow> h a);
          (uuid, n') = (if truthy_str (t_uuid test) then (the (t_uuid test), n)
                        else (uuid_v4 ev n, Suc n));
          cleaned =
            \<lparr>c_title = t_title test,
             c_fullTitle = (case t_fullTitle test of Some r \<Rightarrow> Some r | None \<Rightarrow> t_title test),
             c_timedOut = t_timedOut test,
             c_duration = (case t_duration test of None \<Rightarrow> 0 | Some d \<Rightarrow> d),
             c_state = t_state test,
             c_speed = t_speed test,
             c_pass = (t_state test = Some (js ''passed'')),
             c_fail = (t_state test = Some (js ''failed'')),
             c_pending = t_pending test,
             c_context = stringify ev (t_context test),
             c_code = (if truthy_str code then Some (cleanCode (the code)) else code),
             c_err = err,
             c_isRoot = (case parent of None \<Rightarrow> None | Some p \<Rightarrow> s_root p),
             c_uuid = uuid,
             c_parentUUID = (case parent of None \<Rightarrow> None | Some p \<Rightarrow> s_uuid p),
             c_isHook = (t_type test = Some (js ''hook'')),
             c_skipped = False\<rparr>
      in (cleaned\<lparr>c_skipped := \<not> c_pass cleaned \<and> \<not> c_fail cleaned
                                  \<and> c_pending cleaned \<noteq> Some True \<and> \<not> c_isHook cleaned\<rparr>,
          test', n'))"

text \<open>\<open>cleanTest\<close> on an element of a test array.\<close>

fun cleanTest :: "env \<Rightarrow> config \<Rightarrow> heap \<Rightarrow> nat \<Rightarrow> test \<Rightarrow> cleaned \<times> test \<times> nat" where
  "cleanTest ev cfg h n (Raw t) =
     (let (c, t', n') = cleanTest_raw ev cfg h n t in (c, Raw t', n'))"
| "cleanTest ev cfg h n (Clean c0) =
     (let (c, t', n') = cleanTest_raw ev cfg h n (raw_view c0) in (c, Clean c0, n'))"


section \<open>Pruning a suite object\<close>

text \<open>The own enumerable keys of a suite object, which \<open>_.forOwn\<close> visits.\<close>

definition present :: "string \<Rightarrow> 'a option \<Rightarrow> string list" where
  "present k v = (case v of None \<Rightarrow> [] | Some x \<Rightarrow> [k])"

definition own_keys :: "suite \<Rightarrow> string list" where
  "own_keys obj =
     (present ''title'' (s_title obj)
      @ present ''fullFile'' (s_fullFile obj)
      @ present ''file'' (s_file obj)
      @ present ''beforeHooks'' (s_beforeHooks obj)
      @ present ''afterHooks'' (s_afterHooks obj)
      @ present ''tests'' (s_tests obj)
      @ present ''suites'' (s_suites obj)
      @ present ''passes'' (s_passes obj)
      @ present ''failures'' (s_failures obj)
      @ present ''pending'' (s_pending obj)
      @ present ''skipped'' (s_skipped obj)
      @ present ''hasBeforeHooks'' (s_hasBeforeHooks obj)
      @ present ''hasAfterHooks'' (s_hasAfterHooks obj)
      @ present ''hasTests'' (s_hasTests obj)
      @ present ''hasSuites'' (s_hasSuites obj)
      @ present ''totalTests'' (s_totalTests obj)
      @ present ''totalPasses'' (s_totalPasses obj)
      @ present ''totalFailures'' (s_totalFailures obj)
      @ present ''totalPending'' (s_totalPending obj)
      @ present ''totalSkipped'' (s_totalSkipped obj)
      @ present ''hasPasses'' (s_hasPasses obj)
      @ present ''hasFailures'' (s_hasFailures obj)
      @ present ''hasPending'' (s_hasPending obj)
      @ present ''hasSkipped'' (s_hasSkipped obj)
      @ present ''root'' (s_root obj)
      @ present ''uuid'' (s_uuid obj)
      @ present ''duration'' (s_duration obj)
      @ present ''rootEmpty'' (s_rootEmpty obj)
      @ present ''_timeout'' (s_timeout obj)
      @ present ''_beforeAll'' (s_beforeAll obj)
      @ present ''_beforeEach'' (s_beforeEach obj)
      @ present ''_afterAll'' (s_afterAll obj)
      @ present ''_afterEach'' (s_afterEach obj)
      @ map fst (s_others obj))"

text \<open>The callback of \<open>_.forOwn\<close>: \<open>delete obj[prop]\<close> when \<open>propsToKeep.indexOf(prop) === -1\<close>.\<close>

definition keep_prop :: "string list \<Rightarrow> string \<Rightarrow> 'a option \<Rightarrow> 'a option" where
  "keep_prop propsToKeep prop v = (if prop \<notin> set propsToKeep then None else v)"

definition removeAllPropsFromObjExcept :: "suite \<Rightarrow> string list \<Rightarrow> suite" where
  "removeAllPropsFromObjExcept obj propsToKeep =
     \<lparr>s_title = keep_prop propsToKeep ''title'' (s_title obj),
      s_fullFile = keep_prop propsToKeep ''fullFile'' (s_fullFile obj),
      s_file = keep_prop propsToKeep ''file'' (s_file obj),
      s_beforeHooks = keep_prop propsToKeep ''beforeHooks'' (s_beforeHooks obj),
      s_afterHooks = keep_prop propsToKeep ''afterHooks'' (s_afterHooks obj),
      s_tests = keep_prop propsToKeep ''tests'' (s_tests obj),
      s_suites = keep_prop propsToKeep ''suites'' (s_suites obj),
      s_passes = keep_prop propsToKeep ''passes'' (s_passes obj),
      s_failures = keep_prop propsToKeep ''failures'' (s_failures obj),
      s_pending = keep_prop propsToKeep ''pending'' (s_pending obj),
      s_skipped = keep_prop propsToKeep ''skipped'' (s_skipped obj),
      s_hasBeforeHooks = keep_prop propsToKeep ''hasBeforeHooks'' (s_hasBeforeHooks obj),
      s_hasAfterHooks = keep_prop propsToKeep ''hasAfterHooks'' (s_hasAfterHooks obj),
      s_hasTests = keep_prop propsToKeep ''hasTests'' (s_hasTests obj),
      s_hasSuites = keep_prop propsToKeep ''hasSuites'' (s_hasSuites obj),
      s_totalTests = keep_prop propsToKeep ''totalTests'' (s_totalTests obj),
      s_totalPasses = keep_prop propsToKeep ''totalPasses'' (s_totalPasses obj),
      s_totalFailures = keep_prop propsToKeep ''totalFailures'' (s_totalFailures obj),
      s_totalPending = keep_prop propsToKeep ''totalPending'' (s_totalPending obj),
      s_totalSkipped = keep_prop propsToKeep ''totalSkipped'' (s_totalSkipped obj),
      s_hasPasses = keep_prop propsToKeep ''hasPasses'' (s_hasPasses obj),
      s_hasFailures = keep_prop propsToKeep ''hasFailures'' (s_hasFailures obj),
      s_hasPending = keep_prop propsToKeep ''hasPending'' (s_hasPending obj),
      s_hasSkipped = keep_prop propsToKeep ''hasSkipped'' (s_hasSkipped obj),
      s_root = keep_prop propsToKeep ''root'' (s_root obj),
      s_uuid = keep_prop propsToKeep ''uuid'' (s_uuid obj),
      s_duration = keep_prop propsToKeep ''duration'' (s_duration obj),
      s_rootEmpty = keep_prop propsToKeep ''rootEmpty'' (s_rootEmpty obj),
      s_timeout = keep_prop propsToKeep ''_timeout'' (s_timeout obj),
      s_beforeAll = keep_prop propsToKeep ''_beforeAll'' (s_beforeAll obj),
      s_beforeEach = keep_prop propsToKeep ''_beforeEach'' (s_beforeEach obj),
      s_afterAll = keep_prop propsToKeep ''_afterAll'' (s_afterAll obj),
      s_afterEach = keep_prop propsToKeep ''_afterEach'' (s_afterEach obj),
      s_others = filter (\<lambda>(prop, val). \<not> prop \<notin> set propsToKeep) (s_others obj)\<rparr>"


section \<open>The suite normalizer\<close>

text \<open>\<open>str.replace(pat, rep)\<close> for a string pattern: the first occurrence is replaced.\<close>

fun replace_str :: "jstring \<Rightarrow> jstring \<Rightarrow> jstring \<Rightarrow> jstring" where
  "replace_str pat rep [] = (if pat = [] then rep else [])"
| "replace_str pat rep (c # cs) =
     (if take (length pat) (c # cs) = pat then rep @ drop (length pat) (c # cs)
      else c # replace_str pat rep cs)"

text \<open>
  \<open>[].concat(a, b)\<close>: an array argument contributes its elements, \<open>undefined\<close>
  contributes itself as one element (\<open>None\<close>).
\<close>

definition concat_arg :: "test list option \<Rightarrow> test option list" where
  "concat_arg a = (case a of None \<Rightarrow> [None] | Some ts \<Rightarrow> map Some ts)"

text \<open>
  \<open>_.map(tests, function (test) { return cleanTest(test, config); })\<close>, threading the
  number of identifiers drawn.  On \<open>undefined\<close>, \<open>cleanTest\<close> throws at \<open>test.fn\<close>; the
  error comes with the number of identifiers drawn until then.
\<close>

fun map_cleanTest ::
  "env \<Rightarrow> config \<Rightarrow> heap \<Rightarrow> nat \<Rightarrow> test option list \<Rightarrow> error \<times> nat + cleaned list \<times> nat" where
  "map_cleanTest ev cfg h n [] = Inr ([], n)"
| "map_cleanTest ev cfg h n (None # ts) = Inl (TypeError, n)"
| "map_cleanTest ev cfg h n (Some t # ts) =
     (let (c, t', n') = cleanTest ev cfg h n t
      in case map_cleanTest ev cfg h n' ts of
           Inl e \<Rightarrow> Inl e
         | Inr (cs, n'') \<Rightarrow> Inr (c # cs, n''))"

text \<open>
  The elements of an array after \<open>_.map\<close> has run \<open>cleanTest\<close> over it: \<open>cleanTest\<close> has been
  called on the elements before the first \<open>undefined\<close>, and each of them is as that call leaves
  it (\<open>normalizeErr\<close> may have assigned \<open>err.actual\<close> and \<open>err.expected\<close>).
\<close>

fun visited :: "env \<Rightarrow> config \<Rightarrow> heap \<Rightarrow> nat \<Rightarrow> test option list \<Rightarrow> test option list" where
  "visited ev cfg h n [] = []"
| "visited ev cfg h n (None # ts) = None # ts"
| "visited ev cfg h n (Some t # ts) =
     (let (c, t', n') = cleanTest ev cfg h n t in Some t' # visited ev cfg h n' ts)"

text \<open>
  The hook arrays \<open>a\<close> and \<open>b\<close> hold the objects that \<open>[].concat(a, b)\<close> lists: read back
  from the list \<open>vs\<close> of these objects, an array has its own elements, and an absent array
  stays absent.
\<close>

definition unconcat ::
  "test list option \<Rightarrow> test list option \<Rightarrow> test option list
     \<Rightarrow> test list option \<times> test list option" where
  "unconcat a b vs =
     (map_option (\<lambda>xs. List.map_filter (\<lambda>v. v) (take (length xs) vs)) a,
      map_option (\<lambda>xs. List.map_filter (\<lambda>v. v) (take (length xs) (drop (length (concat_arg a)) vs))) b)"

definition allow_list :: "string list" where
  "allow_list =
     [''title'', ''fullFile'', ''file'', ''beforeHooks'', ''afterHooks'', ''tests'', ''suites'',
      ''passes'', ''failures'', ''pending'', ''skipped'', ''hasBeforeHooks'', ''hasAfterHooks'',
      ''hasTests'', ''hasSuites'', ''totalTests'', ''totalPasses'', ''totalFailures'',
      ''totalPending'', ''totalSkipped'', ''hasPasses'', ''hasFailures'', ''hasPending'',
      ''hasSkipped'', ''root'', ''uuid'', ''duration'', ''rootEmpty'', ''_timeout'']"

text \<open>
  The assignments of \<open>cleanSuite\<close> between the counter update and the pruning, on the
  suite object \<open>suite\<close> (which already carries its new \<open>uuid\<close>), in two parts: those
  before \<open>suite.hasSuites = suite.suites.length > 0\<close>, which throws when \<open>suites\<close> is absent,
  and those from there on, with \<open>subs\<close> the array \<open>suite.suites\<close>.  The filters and the sum
  of the durations are computed before the counter update; they have no effect of their own.
  A duration is a whole number of milliseconds, and the durations of the tests of one suite
  add up to less than 2 to the power 53, so that the sum the code takes, on doubles, is exact.
\<close>

definition assign_collections ::
  "env \<Rightarrow> suite \<Rightarrow> cleaned list \<Rightarrow> cleaned list \<Rightarrow> cleaned list \<Rightarrow> suite" where
  "assign_collections ev suite beforeHooks afterHooks cleanTests =
     (let passingTests = filter (\<lambda>t. c_state t = Some (js ''passed'')) cleanTests;
          failingTests = filter (\<lambda>t. c_state t = Some (js ''failed'')) cleanTests;
          pendingTests = filter (\<lambda>t. c_pending t = Some True) cleanTests;
          skippedTests = filter (\<lambda>t. c_skipped t) cleanTests
      in suite
         \<lparr>s_beforeHooks := Some beforeHooks,
          s_afterHooks := Some afterHooks,
          s_tests := Some (map Clean cleanTests),
          s_fullFile := Some (if truthy_str (s_file suite) then the (s_file suite) else []),
          s_file := (if truthy_str (s_file suite)
                     then Some (replace_str (cwd ev) [] (the (s_file suite))) else Some []),
          s_passes := Some passingTests,
          s_failures := Some failingTests,
          s_pending := Some (Inr pendingTests),
          s_skipped := Some skippedTests,
          s_hasBeforeHooks := Some (length beforeHooks > 0),
          s_hasAfterHooks := Some (length afterHooks > 0),
          s_hasTests := Some (length cleanTests > 0)\<rparr>)"

definition assign_derived ::
  "env \<Rightarrow> suite \<Rightarrow> cleaned list \<Rightarrow> cleaned list \<Rightarrow> cleaned list \<Rightarrow> nat list \<Rightarrow> suite" where
  "assign_derived ev suite beforeHooks afterHooks cleanTests subs =
     (let passingTests = filter (\<lambda>t. c_state t = Some (js ''passed'')) cleanTests;
          failingTests = filter (\<lambda>t. c_state t = Some (js ''failed'')) cleanTests;
          pendingTests = filter (\<lambda>t. c_pending t = Some True) cleanTests;
          skippedTests = filter (\<lambda>t. c_skipped t) cleanTests;
          duration = foldl (\<lambda>d t. d + c_duration t) 0 cleanTests
      in (assign_collections ev suite beforeHooks afterHooks cleanTests)
         \<lparr>s_hasSuites := Some (length subs > 0),
          s_totalTests := Some (length cleanTests),
          s_totalPasses := Some (length passingTests),
          s_totalFailures := Some (length failingTests),
          s_totalPending := Some (length pendingTests),
          s_totalSkipped := Some (length skippedTests),
          s_hasPasses := Some (length passingTests > 0),
          s_hasFailures := Some (length failingTests > 0),
          s_hasPending := Some (length pendingTests > 0),
          s_hasSkipped := Some (length skippedTests > 0),
          s_duration := Some duration,
          s_rootEmpty := Some (case s_root suite of
                                 None \<Rightarrow> None
                               | Some r \<Rightarrow> Some (r \<and> length cleanTests = 0))\<rparr>)"

text \<open>
  \<open>cleanSuite(suite, totalTestsRegistered, config)\<close> on the suite at address \<open>a\<close>.  Reading
  \<open>length\<close> of an absent \<open>tests\<close> or \<open>suites\<close> throws, and so does an absent hook array
  (through \<open>cleanTest(undefined)\<close>); \<open>_.map\<close> of an absent \<open>tests\<close> is the empty array, and
  an element of \<open>tests\<close> is an object.  An address that holds no object is the argument
  \<open>undefined\<close>: the first assignment throws, after its right-hand side \<open>uuid.v4()\<close> has
  been evaluated.  \<open>h\<close> is the store after the first assignment, in which \<open>cleanTest\<close> looks
  up the parent of a test; \<open>suite1\<close> and \<open>suite2\<close> are the suite with its hooks as the first
  and the second \<open>_.map\<close> leave them.
\<close>

definition cleanSuite :: "env \<Rightarrow> config \<Rightarrow> state \<Rightarrow> nat \<Rightarrow> error \<times> state + state" where
  "cleanSuite ev cfg st a =
     (case heap st a of
        None \<Rightarrow> Inl (TypeError, st\<lparr>drawn := Suc (drawn st)\<rparr>)
      | Some suite0 \<Rightarrow>
          (let suite = suite0\<lparr>s_uuid := Some (uuid_v4 ev (drawn st))\<rparr>;
               h = (heap st)(a \<mapsto> suite);
               befores = concat_arg (s_beforeAll suite) @ concat_arg (s_beforeEach suite);
               (bAll, bEach) = unconcat (s_beforeAll suite) (s_beforeEach suite)
                                 (visited ev cfg h (Suc (drawn st)) befores);
               suite1 = suite\<lparr>s_beforeAll := bAll, s_beforeEach := bEach\<rparr>
           in case map_cleanTest ev cfg h (Suc (drawn st)) befores of
                Inl (e, n) \<Rightarrow> Inl (e, \<lparr>heap = h(a \<mapsto> suite1), total = total st, drawn = n\<rparr>)
              | Inr (beforeHooks, n1) \<Rightarrow>
             (let afters = concat_arg (s_afterAll suite) @ concat_arg (s_afterEach suite);
                  (aAll, aEach) = unconcat (s_afterAll suite) (s_afterEach suite)
                                    (visited ev cfg h n1 afters);
                  suite2 = suite1\<lparr>s_afterAll := aAll, s_afterEach := aEach\<rparr>
              in case map_cleanTest ev cfg h n1 afters of
                Inl (e, n) \<Rightarrow> Inl (e, \<lparr>heap = h(a \<mapsto> suite2), total = total st, drawn = n\<rparr>)
              | Inr (afterHooks, n2) \<Rightarrow>
             (case map_cleanTest ev cfg h n2
                     (case s_tests suite of None \<Rightarrow> [] | Some ts \<Rightarrow> map Some ts) of
                Inl (e, n) \<Rightarrow> Inl (e, \<lparr>heap = h(a \<mapsto> suite2), total = total st, drawn = n\<rparr>)
              | Inr (cleanTests, n3) \<Rightarrow>
             (case s_tests suite of
                None \<Rightarrow> Inl (TypeError, \<lparr>heap = h(a \<mapsto> suite2), total = total st, drawn = n3\<rparr>)
              | Some rawTests \<Rightarrow>
             (case s_suites suite of
                None \<Rightarrow>
                  Inl (TypeError,
                       \<lparr>heap = h(a \<mapsto> assign_collections ev suite2 beforeHooks afterHooks cleanTests),
                        total = total st + int (length rawTests),
                        drawn = n3\<rparr>)
              | Some subs \<Rightarrow>
                  Inr \<lparr>heap = h(a \<mapsto> removeAllPropsFromObjExcept
                                      (assign_derived ev suite2 beforeHooks afterHooks cleanTests subs)
                                      allow_list),
                       total = total st + int (length rawTests),
                       drawn = n3\<rparr>))))))"

section \<open>The suite tree walker\<close>

text \<open>
  The callback of \<open>_.each(next.suites, ...)\<close>: normalize the child, push it on the queue.
\<close>

fun each_suite ::
  "env \<Rightarrow> config \<Rightarrow> state \<Rightarrow> nat list \<Rightarrow> nat list \<Rightarrow> error \<times> state + state \<times> nat list" where
  "each_suite ev cfg st queue [] = Inr (st, queue)"
| "each_suite ev cfg st queue (nextSuite # rest) =
     (case cleanSuite ev cfg st nextSuite of
        Inl e \<Rightarrow> Inl e
      | Inr st' \<Rightarrow> each_suite ev cfg st' (queue @ [nextSuite]) rest)"

text \<open>
  The \<open>while (next)\<close> loop.  It need not terminate (a suite may be its own descendant),
  so the result is an option: \<open>None\<close> is a run that never returns.  When \<open>next\<close> is no
  object (the address holds none) the loop is not entered and the function returns.
\<close>

partial_function (option) traverse_loop ::
  "env \<Rightarrow> config \<Rightarrow> state \<Rightarrow> nat list \<Rightarrow> nat \<Rightarrow> (error \<times> state + state) option" where
  "traverse_loop ev cfg st queue next =
     (case heap st next of
        None \<Rightarrow> Some (Inr st)
      | Some obj \<Rightarrow>
          (case (if s_root obj = Some True then cleanSuite ev cfg st next else Inr st) of
             Inl e \<Rightarrow> Some (Inl e)
           | Inr st1 \<Rightarrow>
               (case (case heap st1 next of None \<Rightarrow> None | Some obj1 \<Rightarrow> s_suites obj1) of
                  None \<Rightarrow> Some (Inl (TypeError, st1))
                | Some subs \<Rightarrow>
                    (case (if length subs \<noteq> 0 then each_suite ev cfg st1 queue subs
                           else Inr (st1, queue)) of
                       Inl e \<Rightarrow> Some (Inl e)
                     | Inr (st2, queue2) \<Rightarrow>
                         (case queue2 of
                            [] \<Rightarrow> Some (Inr st2)
                          | n # q \<Rightarrow> traverse_loop ev cfg st2 q n)))))"

definition traverseSuites ::
  "env \<Rightarrow> config \<Rightarrow> state \<Rightarrow> nat \<Rightarrow> (error \<times> state + state) option" where
  "traverseSuites ev cfg st suite = traverse_loop ev cfg st [] suite"


section \<open>A concrete environment\<close>

text \<open>
  Stand-ins for the external packages, used where a statement is evaluated on a concrete
  input.  The \<open>n\<close>-th identifier is \<open>id\<close> followed by \<open>n\<close> primes; \<open>demo_stringify\<close>
  prints the numbers 1 and 2 and strings, which is all the examples need;
  \<open>demo_createPatch\<close> is the patch that version 3 of the package \<open>diff\<close> prints for two
  different one-line texts without a final newline: the four header lines, the hunk header,
  the removed line, the marker of the missing newline, the added line.
\<close>

definition demo_uuid :: "nat \<Rightarrow> jstring" where
  "demo_uuid n = js ''id'' @ replicate n 39"

definition demo_stringify :: "jsval \<Rightarrow> jstring" where
  "demo_stringify v =
     (case v of
        JNum n \<Rightarrow> (if n = 1 then js ''1'' else if n = 2 then js ''2'' else js ''[number]'')
      | JStr s \<Rightarrow> [34] @ s @ [34]
      | _ \<Rightarrow> js ''[value]'')"

definition demo_createPatch :: "jstring \<Rightarrow> jstring \<Rightarrow> jstring \<Rightarrow> jstring" where
  "demo_createPatch fileName oldStr newStr =
     js ''Index: '' @ fileName @ [10]
     @ js ''==================================================================='' @ [10]
     @ js ''--- '' @ fileName @ [10]
     @ js ''+++ '' @ fileName @ [10]
     @ js ''@@ -1,1 +1,1 @@'' @ [10]
     @ [45] @ oldStr @ [10]
     @ [92] @ js '' No newline at end of file'' @ [10]
     @ [43] @ newStr @ [10]"

definition demo_env :: env where
  "demo_env =
     \<lparr>uuid_v4 = demo_uuid,
      createPatch = demo_createPatch,
      diffWordsWithSpace = (\<lambda>a e. [JStr a, JStr e]),
      mochaStringify = demo_stringify,
      stripAnsi = (\<lambda>s. s),
      stringify = (\<lambda>v. case v of JUndefined \<Rightarrow> JUndefined | _ \<Rightarrow> JStr (demo_stringify v)),
      cwd = js ''/work''\<rparr>"

definition demo_config :: config where
  "demo_config = \<lparr>useInlineDiffs = False\<rparr>"


section \<open>Properties of the test normalizer\<close>

lemma cleanTest_raw_skipped:
  "c_skipped (fst (cleanTest_raw ev cfg h n t)) =
     (\<not> c_pass (fst (cleanTest_raw ev cfg h n t)) \<and> \<not> c_fail (fst (cleanTest_raw ev cfg h n t))
      \<and> c_pending (fst (cleanTest_raw ev cfg h n t)) \<noteq> Some True
      \<and> \<not> c_isHook (fst (cleanTest_raw ev cfg h n t)))"
  by (simp add: cleanTest_raw_def Let_def split: prod.splits)

lemma fst_cleanTest:
  "fst (cleanTest ev cfg h n t) =
     fst (cleanTest_raw ev cfg h n (case t of Raw r \<Rightarrow> r | Clean c \<Rightarrow> raw_view c))"
  by (cases t) (simp_all add: split_beta)

text \<open>
  C2.  The \<open>skipped\<close> flag of the object that \<open>cleanTest\<close> returns is true exactly when
  none of \<open>pass\<close>, \<open>fail\<close>, \<open>pending\<close> and \<open>isHook\<close> holds (\<open>pending\<close> holds when it is
  \<open>true\<close>; it may also be \<open>false\<close> or \<open>undefined\<close>).
\<close>

theorem cleanTest_skipped_iff:
  "c_skipped (fst (cleanTest ev cfg h n t)) =
     (\<not> c_pass (fst (cleanTest ev cfg h n t)) \<and> \<not> c_fail (fst (cleanTest ev cfg h n t))
      \<and> c_pending (fst (cleanTest ev cfg h n t)) \<noteq> Some True
      \<and> \<not> c_isHook (fst (cleanTest ev cfg h n t)))"
  unfolding fst_cleanTest by (rule cleanTest_raw_skipped)


section \<open>Properties of the error normalizer\<close>

lemma sameType_defined: "sameType a b \<Longrightarrow> b \<noteq> JUndefined \<Longrightarrow> a \<noteq> JUndefined"
  by (cases a; cases b) (simp_all add: sameType_def)

lemma isString_iff: "isString v = (\<exists>s. v = JStr s)"
  by (cases v) simp_all

text \<open>The condition under which \<open>normalizeErr\<close> enters the diff branch.\<close>

definition wants_diff :: "rawErr \<Rightarrow> bool" where
  "wants_diff err =
     (e_showDiff err \<noteq> JBool False \<and> sameType (e_actual err) (e_expected err)
      \<and> e_expected err \<noteq> JUndefined)"

text \<open>The two texts that are diffed: the strings themselves, or both values stringified.\<close>

definition diff_operands :: "env \<Rightarrow> rawErr \<Rightarrow> jstring \<times> jstring" where
  "diff_operands ev err =
     (case (e_actual err, e_expected err) of
        (JStr a, JStr e) \<Rightarrow> (a, e)
      | (a, e) \<Rightarrow> (mochaStringify ev a, mochaStringify ev e))"

lemma normalizeErr_diff_branch:
  assumes "wants_diff err"
  shows "n_diff (fst (normalizeErr ev cfg err)) =
           (if useInlineDiffs cfg
            then JArr (diffWordsWithSpace ev (fst (diff_operands ev err)) (snd (diff_operands ev err)))
            else JStr (createUnifiedDiff (createPatch ev) (fst (diff_operands ev err))
                         (snd (diff_operands ev err))))"
proof (cases "isString (e_actual err) \<and> isString (e_expected err)")
  case True
  then obtain a e where "e_actual err = JStr a" "e_expected err = JStr e"
    by (auto simp: isString_iff)
  with assms show ?thesis
    by (simp add: normalizeErr_def wants_diff_def diff_operands_def createInlineDiff_def
        createUnifiedDiff_err_def Let_def)
next
  case False
  then have "diff_operands ev err = (mochaStringify ev (e_actual err), mochaStringify ev (e_expected err))"
    by (auto simp: diff_operands_def isString_iff split: jsval.splits)
  with False assms show ?thesis
    by (simp add: normalizeErr_def wants_diff_def createInlineDiff_def
        createUnifiedDiff_err_def Let_def)
qed

lemma normalizeErr_no_diff:
  "\<not> wants_diff err \<Longrightarrow> n_diff (fst (normalizeErr ev cfg err)) = JUndefined"
  by (auto simp add: normalizeErr_def wants_diff_def Let_def)

text \<open>
  C5.  \<open>normalizeErr\<close> returns a defined \<open>diff\<close> exactly when \<open>showDiff\<close> is not \<open>false\<close>,
  \<open>actual\<close> and \<open>expected\<close> are both present (not \<open>undefined\<close>) and of the same runtime
  type; otherwise \<open>diff\<close> is \<open>undefined\<close>.  When a diff is computed it is the diff (inline
  or unified, by \<open>config.useInlineDiffs\<close>) of \<open>actual\<close> and \<open>expected\<close> themselves if both
  are strings, and of their images under the runner's \<open>stringify\<close> otherwise.
\<close>

theorem normalizeErr_diff_iff:
  "(n_diff (fst (normalizeErr ev cfg err)) \<noteq> JUndefined) =
     (e_showDiff err \<noteq> JBool False \<and> e_actual err \<noteq> JUndefined \<and> e_expected err \<noteq> JUndefined
      \<and> sameType (e_actual err) (e_expected err))
   \<and> n_diff (fst (normalizeErr ev cfg err)) =
       (if e_showDiff err \<noteq> JBool False \<and> e_actual err \<noteq> JUndefined
           \<and> e_expected err \<noteq> JUndefined \<and> sameType (e_actual err) (e_expected err)
        then (if useInlineDiffs cfg
              then JArr (diffWordsWithSpace ev (fst (diff_operands ev err))
                           (snd (diff_operands ev err)))
              else JStr (createUnifiedDiff (createPatch ev) (fst (diff_operands ev err))
                           (snd (diff_operands ev err))))
        else JUndefined)"
proof -
  have c: "(e_showDiff err \<noteq> JBool False \<and> e_actual err \<noteq> JUndefined \<and> e_expected err \<noteq> JUndefined
      \<and> sameType (e_actual err) (e_expected err)) = wants_diff err"
    using sameType_defined [of "e_actual err" "e_expected err"] by (auto simp: wants_diff_def)
  show ?thesis
    unfolding c
    by (cases "wants_diff err") (simp_all add: normalizeErr_diff_branch normalizeErr_no_diff)
qed


section \<open>What \<open>cleanSuite\<close> leaves behind\<close>

text \<open>Pruning deletes the hook arrays, whatever they hold.\<close>

lemma pruned_hooks:
  "removeAllPropsFromObjExcept
     (assign_derived ev (s\<lparr>s_beforeAll := w, s_beforeEach := x, s_afterAll := y, s_afterEach := z\<rparr>)
        bh ah ct subs) allow_list
   = removeAllPropsFromObjExcept (assign_derived ev s bh ah ct subs) allow_list"
  by (simp add: removeAllPropsFromObjExcept_def assign_derived_def assign_collections_def Let_def
      keep_prop_def allow_list_def)

lemma cleanSuite_Inr:
  assumes "cleanSuite ev cfg st a = Inr st'"
  obtains suite0 beforeHooks n1 afterHooks n2 cleanTests n3 rawTests subs
  where "heap st a = Some suite0"
    and "s_tests suite0 = Some rawTests"
    and "s_suites suite0 = Some subs"
    and "map_cleanTest ev cfg ((heap st)(a \<mapsto> suite0\<lparr>s_uuid := Some (uuid_v4 ev (drawn st))\<rparr>))
           (Suc (drawn st)) (concat_arg (s_beforeAll suite0) @ concat_arg (s_beforeEach suite0))
         = Inr (beforeHooks, n1)"
    and "map_cleanTest ev cfg ((heap st)(a \<mapsto> suite0\<lparr>s_uuid := Some (uuid_v4 ev (drawn st))\<rparr>))
           n1 (concat_arg (s_afterAll suite0) @ concat_arg (s_afterEach suite0))
         = Inr (afterHooks, n2)"
    and "map_cleanTest ev cfg ((heap st)(a \<mapsto> suite0\<lparr>s_uuid := Some (uuid_v4 ev (drawn st))\<rparr>))
           n2 (map Some rawTests) = Inr (cleanTests, n3)"
    and "st' = \<lparr>heap = (heap st)(a \<mapsto> removeAllPropsFromObjExcept
                   (assign_derived ev (suite0\<lparr>s_uuid := Some (uuid_v4 ev (drawn st))\<rparr>)
                      beforeHooks afterHooks cleanTests subs) allow_list),
                total = total st + int (length rawTests), drawn = n3\<rparr>"
  using assms
  by (auto simp add: cleanSuite_def Let_def pruned_hooks
      split: option.splits sum.splits prod.splits)

lemma map_cleanTest_length:
  "map_cleanTest ev cfg h n ts = Inr (cs, n') \<Longrightarrow> length cs = length ts"
  by (induction ts arbitrary: n cs n')
     (auto split: option.splits sum.splits prod.splits simp: Let_def elim!: map_cleanTest.elims)
lemma removeAll_allow_kept:
  "s_uuid (removeAllPropsFromObjExcept x allow_list) = s_uuid x"
  "s_suites (removeAllPropsFromObjExcept x allow_list) = s_suites x"
  "s_root (removeAllPropsFromObjExcept x allow_list) = s_root x"
  "s_tests (removeAllPropsFromObjExcept x allow_list) = s_tests x"
  "s_totalTests (removeAllPropsFromObjExcept x allow_list) = s_totalTests x"
  by (simp_all add: removeAllPropsFromObjExcept_def keep_prop_def allow_list_def)

lemma removeAll_allow_deleted:
  "s_beforeAll (removeAllPropsFromObjExcept x allow_list) = None"
  "s_beforeEach (removeAllPropsFromObjExcept x allow_list) = None"
  "s_afterAll (removeAllPropsFromObjExcept x allow_list) = None"
  "s_afterEach (removeAllPropsFromObjExcept x allow_list) = None"
  by (simp_all add: removeAllPropsFromObjExcept_def keep_prop_def allow_list_def)

lemma assign_derived_fields:
  "s_uuid (assign_derived ev x bh ah ct subs) = s_uuid x"
  "s_suites (assign_derived ev x bh ah ct subs) = s_suites x"
  "s_root (assign_derived ev x bh ah ct subs) = s_root x"
  "s_tests (assign_derived ev x bh ah ct subs) = Some (map Clean ct)"
  "s_totalTests (assign_derived ev x bh ah ct subs) = Some (length ct)"
  by (simp_all add: assign_derived_def assign_collections_def Let_def)


section \<open>Identifiers\<close>

definition demo_test :: rawTest where
  "demo_test =
     \<lparr>t_title = Some (js ''adds''), t_fullTitle = Some (js ''math adds''), t_fn = None,
      t_body = Some (js ''function () { ok(); }''), t_timedOut = Some False,
      t_duration = Some 3, t_state = Some (js ''passed''), t_speed = Some (js ''fast''),
      t_pending = Some False, t_context = JUndefined, t_err = None, t_parent = None,
      t_uuid = None, t_type = Some (js ''test'')\<rparr>"

lemma cleanTest_raw_uuid:
  "c_uuid (fst (cleanTest_raw ev cfg h n t)) =
     (if truthy_str (t_uuid t) then the (t_uuid t) else uuid_v4 ev n)"
  "snd (snd (cleanTest_raw ev cfg h n t)) = (if truthy_str (t_uuid t) then n else Suc n)"
  "t_uuid (fst (snd (cleanTest_raw ev cfg h n t))) = t_uuid t"
  by (simp_all add: cleanTest_raw_def Let_def split: prod.splits option.splits)

text \<open>
  C3, counterexample.  A test that carries no \<open>uuid\<close> is normalized twice, the second time
  as the first call left it: the two identifiers differ, because \<open>cleanTest\<close> does not store
  the identifier it drew on the raw test.
\<close>

theorem cleanTest_twice_counterexample:
  "c_uuid (fst (cleanTest_raw demo_env demo_config Map.empty 0 demo_test)) \<noteq>
   c_uuid (fst (cleanTest_raw demo_env demo_config Map.empty
                  (snd (snd (cleanTest_raw demo_env demo_config Map.empty 0 demo_test)))
                  (fst (snd (cleanTest_raw demo_env demo_config Map.empty 0 demo_test)))))"
  by (simp add: cleanTest_raw_uuid demo_test_def demo_env_def demo_uuid_def)

text \<open>
  C3, amended.  \<open>cleanTest\<close> returns the test's own \<open>uuid\<close> when it has a non-empty one, and
  draws a fresh one otherwise; it never changes the \<open>uuid\<close> of the raw test, so the
  identifier is stable across re-normalization for a test that carries one.  \<open>cleanSuite\<close>
  always gives the suite a freshly drawn \<open>uuid\<close>, whatever it had.
\<close>

theorem uuid_preserved_or_fresh:
  "c_uuid (fst (cleanTest_raw ev cfg h n t)) =
     (if truthy_str (t_uuid t) then the (t_uuid t) else uuid_v4 ev n)
   \<and> snd (snd (cleanTest_raw ev cfg h n t)) = (if truthy_str (t_uuid t) then n else Suc n)
   \<and> t_uuid (fst (snd (cleanTest_raw ev cfg h n t))) = t_uuid t
   \<and> (truthy_str (t_uuid t) \<longrightarrow>
        c_uuid (fst (cleanTest_raw ev cfg h' n' (fst (snd (cleanTest_raw ev cfg h n t)))))
          = c_uuid (fst (cleanTest_raw ev cfg h n t)))
   \<and> (\<forall>st'. cleanSuite ev cfg st a = Inr st' \<longrightarrow>
        (\<exists>s'. heap st' a = Some s' \<and> s_uuid s' = Some (uuid_v4 ev (drawn st))))"
proof -
  have "\<exists>s'. heap st' a = Some s' \<and> s_uuid s' = Some (uuid_v4 ev (drawn st))"
    if "cleanSuite ev cfg st a = Inr st'" for st'
    using that
    by (elim cleanSuite_Inr) (simp add: removeAll_allow_kept assign_derived_fields)
  then show ?thesis
    by (simp add: cleanTest_raw_uuid)
qed

section \<open>Effects on the raw error and the raw test\<close>

definition demo_err_numbers :: rawErr where
  "demo_err_numbers =
     \<lparr>e_name = Some (js ''AssertionError''), e_message = Some (js ''expected 1 to equal 2''),
      e_actual = JNum 1, e_expected = JNum 2, e_stack = None, e_showDiff = JUndefined\<rparr>"

lemma normalizeErr_effect:
  "snd (normalizeErr ev cfg err) =
     (if wants_diff err \<and> \<not> (isString (e_actual err) \<and> isString (e_expected err))
      then err\<lparr>e_actual := JStr (mochaStringify ev (e_actual err)),
               e_expected := JStr (mochaStringify ev (e_expected err))\<rparr>
      else err)"
  by (simp add: normalizeErr_def wants_diff_def Let_def)

lemma cleanTest_raw_effect:
  "fst (snd (cleanTest_raw ev cfg h n t)) =
     t\<lparr>t_err := map_option (\<lambda>e. snd (normalizeErr ev cfg e)) (t_err t)\<rparr>"
  by (cases "t_err t") (simp_all add: cleanTest_raw_def Let_def split: prod.splits)

lemma cleanSuite_frame:
  "cleanSuite ev cfg st a = Inr st' \<Longrightarrow> b \<noteq> a \<Longrightarrow> heap st' b = heap st b"
  by (elim cleanSuite_Inr) simp

text \<open>
  C4, counterexample.  On an assertion error whose \<open>actual\<close> and \<open>expected\<close> are the
  numbers 1 and 2, \<open>normalizeErr\<close> leaves the raw error changed: both fields have been
  overwritten with strings.
\<close>

theorem normalizeErr_mutates_counterexample:
  "snd (normalizeErr demo_env demo_config demo_err_numbers) \<noteq> demo_err_numbers
   \<and> e_actual (snd (normalizeErr demo_env demo_config demo_err_numbers)) = JStr (js ''1'')
   \<and> e_expected (snd (normalizeErr demo_env demo_config demo_err_numbers)) = JStr (js ''2'')"
proof -
  have w: "wants_diff demo_err_numbers"
    by (simp add: wants_diff_def demo_err_numbers_def sameType_def)
  have a: "e_actual (snd (normalizeErr demo_env demo_config demo_err_numbers)) = JStr (js ''1'')"
    using w by (simp add: normalizeErr_effect)
       (simp add: demo_err_numbers_def demo_env_def demo_stringify_def)
  have e: "e_expected (snd (normalizeErr demo_env demo_config demo_err_numbers)) = JStr (js ''2'')"
    using w by (simp add: normalizeErr_effect)
       (simp add: demo_err_numbers_def demo_env_def demo_stringify_def)
  have "e_actual demo_err_numbers = JNum 1"
    by (simp add: demo_err_numbers_def)
  with a have "snd (normalizeErr demo_env demo_config demo_err_numbers) \<noteq> demo_err_numbers"
    by auto
  with a e show ?thesis by simp
qed

text \<open>
  C4, amended.  \<open>normalizeErr\<close> and \<open>cleanTest\<close> build new objects.  \<open>normalizeErr\<close> leaves the
  raw error as it was, except that when a diff is computed for an \<open>actual\<close> and \<open>expected\<close>
  that are not both strings it overwrites these two fields with their stringified forms.
  \<open>cleanTest\<close> changes nothing of a raw test but this effect on its \<open>err\<close>, and nothing of an
  already normalized one.  \<open>cleanSuite\<close> changes the store at the suite it is given and
  nowhere else.
\<close>

theorem normalizers_frame:
  "snd (normalizeErr ev cfg err) =
     (if wants_diff err \<and> \<not> (isString (e_actual err) \<and> isString (e_expected err))
      then err\<lparr>e_actual := JStr (mochaStringify ev (e_actual err)),
               e_expected := JStr (mochaStringify ev (e_expected err))\<rparr>
      else err)
   \<and> fst (snd (cleanTest ev cfg h n (Raw t))) =
       Raw (t\<lparr>t_err := map_option (\<lambda>e. snd (normalizeErr ev cfg e)) (t_err t)\<rparr>)
   \<and> fst (snd (cleanTest ev cfg h n (Clean c))) = Clean c
   \<and> (\<forall>st' b. cleanSuite ev cfg st a = Inr st' \<and> b \<noteq> a \<longrightarrow> heap st' b = heap st b)"
  using cleanSuite_frame [of ev cfg st a]
  by (auto simp add: normalizeErr_effect cleanTest_raw_effect split_beta)


section \<open>Literal patterns\<close>

text \<open>Plain list functions against which the matcher is characterised on literal patterns.\<close>

fun is_prefix :: "'a list \<Rightarrow> 'a list \<Rightarrow> bool" where
  "is_prefix [] ys = True"
| "is_prefix (x # xs) [] = False"
| "is_prefix (x # xs) (y # ys) = (x = y \<and> is_prefix xs ys)"

fun has_infix :: "'a list \<Rightarrow> 'a list \<Rightarrow> bool" where
  "has_infix p [] = (p = [])"
| "has_infix p (c # cs) = (is_prefix p (c # cs) \<or> has_infix p cs)"

lemma rx_ends_seqs_Cons:
  "rx_ends (seqs (r # rs)) s i = concat (map (rx_ends (seqs rs) s) (rx_ends r s i))"
proof (cases rs)
  case Nil
  have "concat (map (rx_ends Eps s) xs) = xs" for xs :: "nat list"
    by (induction xs) simp_all
  with Nil show ?thesis by simp
next
  case (Cons r' rs')
  then show ?thesis by simp
qed

lemma rx_ends_lits:
  "i \<le> length s \<Longrightarrow>
   rx_ends (lits p) s i = (if is_prefix p (drop i s) then [i + length p] else [])"
proof (induction p arbitrary: i)
  case Nil
  then show ?case by (simp add: lits_def)
next
  case (Cons c p)
  have step: "rx_ends (lits (c # p)) s i = concat (map (rx_ends (lits p) s) (rx_ends (Lit c) s i))"
    unfolding lits_def by (simp add: rx_ends_seqs_Cons del: seqs.simps)
  show ?case
  proof (cases "i < length s")
    case True
    then obtain d t where d: "drop i s = d # t" "s ! i = d" "drop (Suc i) s = t"
      by (metis Cons_nth_drop_Suc)
    from True have "Suc i \<le> length s" by simp
    from Cons.IH [OF this] d show ?thesis
      using True by (auto simp add: step Lit_def)
  next
    case False
    with Cons.prems have "drop i s = []" by simp
    with False show ?thesis by (simp add: step Lit_def)
  qed
qed

lemma rx_exec_None_iff:
  "(rx_exec r s i = None) = (\<forall>k. i \<le> k \<and> k \<le> length s \<longrightarrow> rx_ends r s k = [])"
proof (induction r s i rule: rx_exec.induct)
  case (1 r s i)
  show ?case
  proof (cases "length s < i")
    case True
    then show ?thesis by (subst rx_exec.simps) auto
  next
    case False
    show ?thesis
    proof (cases "rx_ends r s i")
      case Nil
      have "(\<forall>k. i \<le> k \<and> k \<le> length s \<longrightarrow> rx_ends r s k = []) =
            (\<forall>k. Suc i \<le> k \<and> k \<le> length s \<longrightarrow> rx_ends r s k = [])"
        using Nil by (metis Suc_leI le_neq_implies_less Suc_leD)
      with 1 [OF False Nil] False Nil show ?thesis
        by (subst rx_exec.simps) simp
    next
      case (Cons e es)
      with False show ?thesis
        by (subst rx_exec.simps) (auto intro!: exI [of _ i])
    qed
  qed
qed

lemma has_infix_drop:
  "has_infix p s = (\<exists>k \<le> length s. is_prefix p (drop k s))"
proof (induction s)
  case Nil
  then show ?case by (cases p) simp_all
next
  case (Cons c cs)
  have "(\<exists>k \<le> length (c # cs). is_prefix p (drop k (c # cs))) =
        (is_prefix p (c # cs) \<or> (\<exists>k \<le> length cs. is_prefix p (drop k cs)))"
    (is "?L = ?R")
  proof
    assume ?L
    then obtain k where k: "k \<le> length (c # cs)" "is_prefix p (drop k (c # cs))" by blast
    then show ?R by (cases k) auto
  next
    assume ?R
    then show ?L
    proof
      assume "is_prefix p (c # cs)"
      then show ?L by (intro exI [of _ 0]) simp
    next
      assume "\<exists>k \<le> length cs. is_prefix p (drop k cs)"
      then obtain k where "k \<le> length cs" "is_prefix p (drop k cs)" by blast
      then show ?L by (intro exI [of _ "Suc k"]) simp
    qed
  qed
  with Cons show ?case by simp
qed

lemma rx_test_lits: "rx_test (lits p) s = has_infix p s"
proof -
  have "rx_test (lits p) s = (\<exists>k. k \<le> length s \<and> rx_ends (lits p) s k \<noteq> [])"
    by (simp add: rx_test_def rx_exec_None_iff)
  also have "\<dots> = (\<exists>k \<le> length s. is_prefix p (drop k s))"
    by (auto simp add: rx_ends_lits split: if_splits)
  finally show ?thesis by (simp add: has_infix_drop)
qed


section \<open>Properties of the unified diff\<close>

lemma diff_line_infix:
  "diff_line line =
     (if has_infix (js ''@@'') line then None
      else if has_infix (92 # js '' No newline'') line then None
      else Some (pad_marker line))"
  by (simp add: diff_line_def rx_hunk_def rx_no_newline_def rx_test_lits)

lemma split_nl_aux_line:
  "10 \<notin> set l \<Longrightarrow> split_nl_aux acc l = [rev acc @ l]"
  by (induction l arbitrary: acc) simp_all

lemma split_nl_aux_append:
  "10 \<notin> set l \<Longrightarrow> split_nl_aux acc (l @ 10 # rest) = (rev acc @ l) # split_nl_aux [] rest"
  by (induction l arbitrary: acc) simp_all

lemma split_nl_aux_all_no_newline:
  "10 \<notin> set acc \<Longrightarrow> \<forall>l \<in> set (split_nl_aux acc s). 10 \<notin> set l"
proof (induction s arbitrary: acc)
  case Nil
  then show ?case by simp
next
  case (Cons c s)
  show ?case
  proof (cases "c = 10")
    case True
    with Cons.prems Cons.IH [of "[]"] show ?thesis by simp
  next
    case False
    with Cons.prems Cons.IH [of "c # acc"] show ?thesis by simp
  qed
qed

lemma split_nl_aux_no_newline:
  "10 \<notin> set acc \<Longrightarrow> l \<in> set (split_nl_aux acc s) \<Longrightarrow> 10 \<notin> set l"
  using split_nl_aux_all_no_newline by blast

lemma split_nl_join_nl:
  "\<forall>l \<in> set ls. 10 \<notin> set l \<Longrightarrow> split_nl (join_nl ls) = (if ls = [] then [[]] else ls)"
proof (induction ls rule: join_nl.induct)
  case 1
  then show ?case by (simp add: split_nl_def)
next
  case (2 l)
  then show ?case by (simp add: split_nl_def split_nl_aux_line)
next
  case (3 l l' ls)
  then show ?case by (simp add: split_nl_def split_nl_aux_append)
qed

lemma pad_marker_no_newline: "10 \<notin> set l \<Longrightarrow> 10 \<notin> set (pad_marker l)"
  by (auto simp: pad_marker_def split: list.splits)

lemma pad_marker_no_infix:
  assumes "\<not> has_infix (q # qs) l" and "q \<noteq> 45" and "q \<noteq> 43" and "q \<noteq> 32"
  shows "\<not> has_infix (q # qs) (pad_marker l)"
  using assms by (auto simp: pad_marker_def split: list.splits)

lemma map_filter_diff_line:
  assumes "l \<in> set (List.map_filter diff_line ls)"
  obtains l0 where "l0 \<in> set ls" and "l = pad_marker l0"
    and "\<not> has_infix (js ''@@'') l0" and "\<not> has_infix (92 # js '' No newline'') l0"
  using assms by (auto simp: List.map_filter_def diff_line_infix split: if_splits)

lemma js_Cons: "js (c # cs) = of_char c # js cs"
  by (simp add: js_def)

lemma unified_diff_lines:
  assumes "l \<in> set (split_nl (createUnifiedDiff cp a e))"
  shows "\<not> has_infix (js ''@@'') l \<and> \<not> has_infix (92 # js '' No newline'') l"
proof -
  let ?ls = "List.map_filter diff_line (drop 4 (split_nl (cp (js ''string'') a e)))"
  have good: "10 \<notin> set k \<and> \<not> has_infix (js ''@@'') k \<and> \<not> has_infix (92 # js '' No newline'') k"
    if "k \<in> set ?ls" for k
  proof -
    from that obtain l0 where l0: "l0 \<in> set (drop 4 (split_nl (cp (js ''string'') a e)))"
      "k = pad_marker l0" "\<not> has_infix (js ''@@'') l0"
      "\<not> has_infix (92 # js '' No newline'') l0"
      by (rule map_filter_diff_line)
    from l0(1) have "l0 \<in> set (split_nl_aux [] (cp (js ''string'') a e))"
      by (auto simp: split_nl_def dest: in_set_dropD)
    then have "10 \<notin> set l0"
      by (rule split_nl_aux_no_newline [rotated]) simp
    then have 1: "10 \<notin> set k" using l0(2) by (simp add: pad_marker_no_newline)
    have "\<not> has_infix (64 # js ''@'') l0" using l0(3) by (simp add: js_Cons)
    then have "\<not> has_infix (64 # js ''@'') k"
      unfolding l0(2) by (rule pad_marker_no_infix) simp_all
    then have 2: "\<not> has_infix (js ''@@'') k" by (simp add: js_Cons)
    have 3: "\<not> has_infix (92 # js '' No newline'') k"
      unfolding l0(2) using l0(4) by (rule pad_marker_no_infix) simp_all
    from 1 2 3 show ?thesis by simp
  qed
  then have "split_nl (join_nl ?ls) = (if ?ls = [] then [[]] else ?ls)"
    by (intro split_nl_join_nl) blast
  with assms have "l = [] \<or> l \<in> set ?ls"
    by (auto simp: createUnifiedDiff_def split: if_splits)
  then show ?thesis
  proof
    assume "l = []"
    then show ?thesis by (simp add: js_Cons)
  next
    assume "l \<in> set ?ls"
    with good show ?thesis by blast
  qed
qed

lemma is_prefix_has_infix: "is_prefix p s \<Longrightarrow> has_infix p s"
  by (cases s; cases p) simp_all

text \<open>
  C6, amended.  Whatever patch the diff package returns, no line of the string that
  \<open>createUnifiedDiff\<close> returns contains \<open>@@\<close> (so none starts with it), and none contains
  the marker \<open>\ No newline\<close>, backslash included.
\<close>

theorem createUnifiedDiff_no_markers:
  "\<forall>l \<in> set (split_nl (createUnifiedDiff cp a e)).
     \<not> has_infix (js ''@@'') l \<and> \<not> is_prefix (js ''@@'') l
     \<and> \<not> has_infix (92 # js '' No newline'') l"
  using unified_diff_lines is_prefix_has_infix by blast


lemmas diff_eval = createUnifiedDiff_def demo_createPatch_def split_nl_def List.map_filter_def
  diff_line_infix pad_marker_def js_def

lemma demo_diff_foo_bar:
  "createUnifiedDiff demo_createPatch (js ''foo'') (js ''bar'') =
     js ''- foo'' @ [10] @ js ''+ bar'' @ [10]"
  by (simp add: diff_eval)

theorem createUnifiedDiff_no_markers_witness:
  "js ''- foo'' \<in> set (split_nl (createUnifiedDiff demo_createPatch (js ''foo'') (js ''bar'')))
   \<and> \<not> has_infix (js ''@@'') (js ''- foo'') \<and> \<not> is_prefix (js ''@@'') (js ''- foo'')
   \<and> \<not> has_infix (92 # js '' No newline'') (js ''- foo'')"
proof -
  have m: "js ''- foo'' \<in> set (split_nl (createUnifiedDiff demo_createPatch (js ''foo'') (js ''bar'')))"
    by (simp add: demo_diff_foo_bar) (simp add: split_nl_def js_def)
  from createUnifiedDiff_no_markers [of demo_createPatch "js ''foo''" "js ''bar''"] m
  show ?thesis by blast
qed

text \<open>
  C6, counterexample.  For \<open>actual = "No newline"\<close> and \<open>expected = "x"\<close> the patch has
  the removed line \<open>-No newline\<close>; it is not a marker line, so it is kept, and the returned
  string has the line \<open>- No newline\<close>, which contains \<open>No newline\<close>.
\<close>

theorem createUnifiedDiff_No_newline_counterexample:
  "js ''- No newline'' \<in>
     set (split_nl (createUnifiedDiff demo_createPatch (js ''No newline'') (js ''x'')))
   \<and> has_infix (js ''No newline'') (js ''- No newline'')"
  by (simp add: diff_eval)


section \<open>Properties of the code-snippet cleaner\<close>

lemma rx_exec_Some:
  "rx_exec r s i = Some (b, e) \<Longrightarrow>
     i \<le> b \<and> b \<le> length s \<and> (\<exists>es. rx_ends r s b = e # es)
     \<and> (\<forall>k. i \<le> k \<and> k < b \<longrightarrow> rx_ends r s k = [])"
proof (induction r s i rule: rx_exec.induct)
  case (1 r s i)
  show ?case
  proof (cases "rx_ends r s i")
    case Nil
    from 1(2) Nil have le: "\<not> length s < i" and rec: "rx_exec r s (Suc i) = Some (b, e)"
      by (subst (asm) rx_exec.simps, simp split: if_splits)+
    from 1(1) [OF le Nil rec] Nil show ?thesis
      by (auto simp: less_Suc_eq_le dest: le_neq_implies_less)
  next
    case (Cons e' es)
    with 1(2) show ?thesis
      by (subst (asm) rx_exec.simps) (auto split: if_splits)
  qed
qed

lemma replace_from_None: "rx_exec r s i = None \<Longrightarrow> replace_from r rep s i p = drop p s"
  by (subst replace_from.simps) simp

text \<open>
  A global replacement changes nothing when every match, from \<open>i\<close> on, matches a text
  equal to the replacement.
\<close>

lemma replace_from_id:
  assumes "\<And>k e es. i \<le> k \<Longrightarrow> k \<le> length s \<Longrightarrow> rx_ends r s k = e # es \<Longrightarrow>
             k \<le> e \<and> e \<le> length s \<and> take (e - k) (drop k s) = rep"
    and "p \<le> i"
  shows "replace_from r rep s i p = drop p s"
  using assms
proof (induction r rep s i p rule: replace_from.induct)
  case (1 r rep s i p)
  show ?case
  proof (cases "rx_exec r s i")
    case None
    then show ?thesis by (rule replace_from_None)
  next
    case (Some m)
    obtain b e where m: "m = (b, e)" by (cases m)
    from rx_exec_Some [OF Some [unfolded m]] obtain es
      where b: "i \<le> b" "b \<le> length s" "rx_ends r s b = e # es" by blast
    from "1.prems"(1) [OF b] have e: "b \<le> e" "e \<le> length s" "take (e - b) (drop b s) = rep"
      by simp_all
    have pb: "p \<le> b" using "1.prems"(2) b(1) by simp
    have seg: "take (b - p) (drop p s) @ drop b s = drop p s"
      using pb b(2) by (metis add_diff_inverse_nat append_take_drop_id drop_drop not_less add.commute)
    show ?thesis
    proof (cases "e \<le> b")
      case True
      with e have eb: "e = b" "rep = []" by simp_all
      have "replace_from r rep s (Suc b) b = drop b s"
      proof (rule "1.IH"(1) [OF Some [unfolded m] refl True pb])
        fix k e' es' assume "Suc b \<le> k" "k \<le> length s" "rx_ends r s k = e' # es'"
        with "1.prems"(1) [of k e' es'] b(1)
        show "k \<le> e' \<and> e' \<le> length s \<and> take (e' - k) (drop k s) = rep" by simp
      qed simp
      with True pb seg eb Some m show ?thesis
        by (subst replace_from.simps) simp
    next
      case False
      have "replace_from r rep s e e = drop e s"
      proof (rule "1.IH"(3) [OF Some [unfolded m] refl False pb])
        fix k e' es' assume "e \<le> k" "k \<le> length s" "rx_ends r s k = e' # es'"
        with "1.prems"(1) [of k e' es'] b(1) e(1)
        show "k \<le> e' \<and> e' \<le> length s \<and> take (e' - k) (drop k s) = rep" by simp
      qed simp
      moreover have "rep @ drop e s = drop b s"
        using e by (metis add_diff_inverse_nat append_take_drop_id drop_drop not_less add.commute)
      ultimately show ?thesis
        using False pb seg Some m by (subst replace_from.simps) simp
    qed
  qed
qed


text \<open>
  Text that the first and the last step of \<open>cleanCode\<close> leave alone: its only line break
  is the newline, and it neither starts nor ends with white space.
\<close>

definition plain_text :: "jstring \<Rightarrow> bool" where
  "plain_text y =
     ((\<forall>c \<in> set y. c \<noteq> 13 \<and> c \<noteq> 8232 \<and> c \<noteq> 8233)
      \<and> (y \<noteq> [] \<longrightarrow> \<not> isWhiteSpace (hd y) \<and> \<not> isWhiteSpace (last y)))"

text \<open>
  Text in which nothing is left for the other steps: no function or arrow header, no closing
  brace at the end, no empty line.
\<close>

definition no_residue :: "jstring \<Rightarrow> bool" where
  "no_residue y =
     (\<not> rx_test rx_header y \<and> (y \<noteq> [] \<longrightarrow> last y \<noteq> 125) \<and> \<not> has_infix [10, 10] y)"

lemma step_newline:
  assumes "\<forall>c \<in> set y. c \<noteq> 13 \<and> c \<noteq> 8232 \<and> c \<noteq> 8233"
  shows "replace_all rx_newline [10] y = y"
proof -
  have "replace_from rx_newline [10] y 0 0 = drop 0 y"
  proof (rule replace_from_id)
    fix k e es assume k: "k \<le> length y" and m: "rx_ends rx_newline y k = e # es"
    from m have lt: "k < length y"
      by (auto simp: rx_newline_def Lit_def split: if_splits)
    with assms have "y ! k \<noteq> 13 \<and> y ! k \<noteq> 8232 \<and> y ! k \<noteq> 8233" by simp
    with m lt have "e = Suc k" "y ! k = 10"
      by (auto simp: rx_newline_def Lit_def split: if_splits)
    with lt show "k \<le> e \<and> e \<le> length y \<and> take (e - k) (drop k y) = [10]"
      by (simp add: take_Suc_conv_app_nth [of 0] Cons_nth_drop_Suc [symmetric])
  qed simp
  then show ?thesis by (simp add: replace_all_def)
qed

lemma step_bom:
  assumes "y \<noteq> [] \<longrightarrow> \<not> isWhiteSpace (hd y)"
  shows "replace_first rx_bom [] y = y"
proof -
  have "rx_ends rx_bom y k = []" for k
  proof (cases "k = 0 \<and> y \<noteq> []")
    case True
    with assms have "y ! 0 \<noteq> 65279"
      by (auto simp: isWhiteSpace_def hd_conv_nth)
    with True show ?thesis by (simp add: rx_bom_def Lit_def)
  next
    case False
    then show ?thesis by (auto simp: rx_bom_def Lit_def)
  qed
  then have "rx_exec rx_bom y 0 = None" by (simp add: rx_exec_None_iff)
  then show ?thesis by (simp add: replace_first_def)
qed

lemma step_header: "\<not> rx_test rx_header y \<Longrightarrow> replace_first rx_header [] y = y"
  by (cases "rx_exec rx_header y 0") (simp_all add: rx_test_def replace_first_def)

lemma concat_map_Nil: "(\<And>x. x \<in> set xs \<Longrightarrow> f x = []) \<Longrightarrow> concat (map f xs) = []"
  by (induction xs) simp_all

lemma step_closing:
  assumes "y \<noteq> [] \<longrightarrow> last y \<noteq> 125"
  shows "replace_first rx_closing [] y = y"
proof -
  have tail: "rx_ends (Seq (Lit 125) Eos) y j = []" for j
  proof (cases "Suc j = length y")
    case True
    then have ne: "y \<noteq> []" by auto
    from True have "length y - 1 = j" by arith
    with ne have "y \<noteq> []" "last y = y ! j"
      by (simp_all add: last_conv_nth)
    with assms show ?thesis by (simp add: Lit_def)
  next
    case False
    then show ?thesis by (simp add: Lit_def)
  qed
  have "rx_ends rx_closing y k = []" for k
    unfolding rx_closing_def seqs.simps rx_ends.simps(2) [of "Star isWhiteSpace"]
    by (rule concat_map_Nil) (rule tail)
  then have "rx_exec rx_closing y 0 = None" by (simp add: rx_exec_None_iff)
  then show ?thesis by (simp add: replace_first_def)
qed


lemma indent_width_zero:
  assumes "y \<noteq> [] \<longrightarrow> \<not> isWhiteSpace (hd y)" and "isWhiteSpace c"
  shows "indent_width c y = 0"
proof (cases y)
  case Nil
  then show ?thesis by (simp add: indent_width_def)
next
  case (Cons d t)
  with assms have "\<not> isWhiteSpace d" by simp
  moreover have "isWhiteSpace 10" by (simp add: isWhiteSpace_def)
  ultimately have "d \<noteq> 10" "d \<noteq> c" using assms(2) by auto
  with Cons show ?thesis by (simp add: indent_width_def)
qed

lemma two_newlines:
  assumes "Suc j < length y" and "y ! j = 10" and "y ! Suc j = 10"
  shows "has_infix [10, 10] y"
proof -
  from assms(1) have "drop j y = y ! j # y ! Suc j # drop (Suc (Suc j)) y"
    by (simp add: Cons_nth_drop_Suc Suc_lessD)
  with assms have "is_prefix [10, 10] (drop j y)" by simp
  moreover from assms(1) have "j \<le> length y" by simp
  ultimately show ?thesis unfolding has_infix_drop by blast
qed

lemma step_indent:
  assumes "\<forall>c \<in> set y. c \<noteq> 13 \<and> c \<noteq> 8232 \<and> c \<noteq> 8233"
    and "y \<noteq> [] \<longrightarrow> \<not> isWhiteSpace (hd y)"
    and "\<not> has_infix [10, 10] y"
  shows "replace_all (rx_indent 0 0) [] y = y"
proof -
  have "replace_from (rx_indent 0 0) [] y 0 0 = drop 0 y"
  proof (rule replace_from_id)
    fix k e es assume k: "k \<le> length y" and m: "rx_ends (rx_indent 0 0) y k = e # es"
    have "\<not> (k < length y \<and> y ! k = 10 \<and> (k = 0 \<or> isLineTerminator (y ! (k - 1))))"
    proof
      assume a: "k < length y \<and> y ! k = 10 \<and> (k = 0 \<or> isLineTerminator (y ! (k - 1)))"
      show False
      proof (cases k)
        case 0
        with a have "y \<noteq> []" "hd y = 10" by (auto simp: hd_conv_nth)
        with assms(2) show False by (simp add: isWhiteSpace_def)
      next
        case (Suc j)
        with a have j: "j < length y" "Suc j < length y" "isLineTerminator (y ! j)" "y ! Suc j = 10"
          by auto
        from j(1) assms(1) have "y ! j \<noteq> 13 \<and> y ! j \<noteq> 8232 \<and> y ! j \<noteq> 8233" by simp
        with j(3) have "y ! j = 10" by (auto simp: isLineTerminator_def)
        with j assms(3) show False using two_newlines by blast
      qed
    qed
    with m have "e = k"
      by (auto simp: rx_indent_def Lit_def split: if_splits)
    with k show "k \<le> e \<and> e \<le> length y \<and> take (e - k) (drop k y) = []" by simp
  qed simp
  then show ?thesis by (simp add: replace_all_def)
qed

lemma step_trim:
  assumes "y \<noteq> [] \<longrightarrow> \<not> isWhiteSpace (hd y) \<and> \<not> isWhiteSpace (last y)"
  shows "replace_all rx_trim [] y = y"
proof -
  have left: "rx_ends (seqs [Bos, Cls isWhiteSpace, Star isWhiteSpace]) y k = []" for k
  proof (cases "k = 0 \<and> y \<noteq> []")
    case True
    with assms have "\<not> isWhiteSpace (y ! 0)" by (simp add: hd_conv_nth)
    with True show ?thesis by simp
  next
    case False
    then show ?thesis by auto
  qed
  have right: "rx_ends (seqs [Cls isWhiteSpace, Star isWhiteSpace, Eos]) y k = []" for k
  proof (cases "k < length y \<and> isWhiteSpace (y ! k)")
    case False
    then show ?thesis by auto
  next
    case True
    then have ne: "y \<noteq> []" by auto
    let ?m = "length (takeWhile isWhiteSpace (drop (Suc k) y))"
    have "Suc k + ?m < length y"
    proof (rule ccontr)
      assume "\<not> Suc k + ?m < length y"
      moreover have "?m \<le> length (drop (Suc k) y)" by (rule length_takeWhile_le)
      ultimately have full: "?m = length (drop (Suc k) y)" by simp
      then have all: "\<forall>c \<in> set (drop (Suc k) y). isWhiteSpace c"
        by (metis takeWhile_eq_all_conv length_takeWhile_le takeWhile_eq_take take_all order_refl)
      have "isWhiteSpace (last y)"
      proof (cases "Suc k = length y")
        case True
        then have "length y - 1 = k" by arith
        with ne \<open>k < length y \<and> isWhiteSpace (y ! k)\<close> show ?thesis
          by (simp add: last_conv_nth)
      next
        case False
        with True have "drop (Suc k) y \<noteq> []" by simp
        then have "last y \<in> set (drop (Suc k) y)"
          by (metis last_drop last_in_set drop_eq_Nil not_le)
        with all show ?thesis by blast
      qed
      with assms ne show False by simp
    qed
    then have "\<forall>j \<in> set (rev [Suc k ..< Suc (Suc k + ?m)]). rx_ends Eos y j = []"
      by auto
    then have "concat (map (rx_ends Eos y) (rev [Suc k ..< Suc (Suc k + ?m)])) = []"
      by (intro concat_map_Nil) blast
    with True show ?thesis by simp
  qed
  have "rx_ends rx_trim y k = []" for k
    unfolding rx_trim_def by (simp only: rx_ends.simps(3) left right append_Nil)
  then have "rx_exec rx_trim y 0 = None" by (simp add: rx_exec_None_iff)
  then show ?thesis by (simp add: replace_all_def replace_from_None)
qed

lemma cleanCode_fixed:
  assumes "plain_text y" and "no_residue y"
  shows "cleanCode y = y"
proof -
  from assms have a: "\<forall>c \<in> set y. c \<noteq> 13 \<and> c \<noteq> 8232 \<and> c \<noteq> 8233"
    and b: "y \<noteq> [] \<longrightarrow> \<not> isWhiteSpace (hd y) \<and> \<not> isWhiteSpace (last y)"
    and c: "\<not> rx_test rx_header y" and d: "y \<noteq> [] \<longrightarrow> last y \<noteq> 125"
    and e: "\<not> has_infix [10, 10] y"
    by (simp_all add: plain_text_def no_residue_def)
  from b have b1: "y \<noteq> [] \<longrightarrow> \<not> isWhiteSpace (hd y)" by simp
  have s1: "replace_first rx_closing []
              (replace_first rx_header [] (replace_first rx_bom [] (replace_all rx_newline [10] y))) = y"
    by (simp add: step_newline [OF a] step_bom [OF b1] step_header [OF c] step_closing [OF d])
  have w: "indent_width 32 y = 0" "indent_width 9 y = 0"
    by (rule indent_width_zero [OF b1], simp add: isWhiteSpace_def)+
  show ?thesis
    unfolding cleanCode_def Let_def s1 w
    by (simp only: step_indent [OF a b1 e] step_trim [OF b])
qed


lemmas rx_eval = rx_exec.simps replace_from.simps replace_all_def replace_first_def rx_test_def
  js_def lits_def Lit_def isWhiteSpace_def isDot_def isLineTerminator_def

lemmas cleanCode_eval = cleanCode_def rx_newline_def rx_bom_def rx_header_def rx_closing_def
  rx_indent_def rx_trim_def indent_width_def Let_def rx_eval

lemma cleanCode_demo_object:
  "cleanCode (js ''function(){var o={a:1}}'') = js ''var o={a:1}''"
  by (simp add: cleanCode_eval)

lemma cleanCode_demo_object_again:
  "cleanCode (js ''var o={a:1}'') = js ''var o={a:1''"
  by (simp add: cleanCode_eval)

lemma cleanCode_demo_call: "cleanCode (js ''function(){ok()}'') = js ''ok()''"
  by (simp add: cleanCode_eval)

lemma settled_demo_call: "plain_text (js ''ok()'') \<and> no_residue (js ''ok()'')"
  by (simp add: plain_text_def no_residue_def rx_header_def rx_eval)

text \<open>
  C8, counterexample.  A test body that ends with the closing brace of an object literal:
  the first cleaning strips the function wrapper and leaves \<open>var o={a:1}\<close>, the second
  strips the brace of the literal.
\<close>

theorem cleanCode_idempotent_counterexample:
  "cleanCode (cleanCode (js ''function(){var o={a:1}}'')) \<noteq> cleanCode (js ''function(){var o={a:1}}'')"
  by (simp add: cleanCode_demo_object cleanCode_demo_object_again) (simp add: js_def)

text \<open>
  C8, amended.  Cleaning a second time changes nothing when the cleaned text has only newline
  line breaks and no surrounding white space, and when nothing is left in it for the
  stripping steps: no function or arrow header, no closing brace at its end, no empty line.
\<close>

theorem cleanCode_idempotent_when_settled:
  "plain_text (cleanCode x) \<and> no_residue (cleanCode x) \<longrightarrow>
     cleanCode (cleanCode x) = cleanCode x"
  by (simp add: cleanCode_fixed)

theorem cleanCode_idempotent_when_settled_witness:
  "plain_text (cleanCode (js ''function(){ok()}'')) \<and> no_residue (cleanCode (js ''function(){ok()}''))
   \<and> cleanCode (cleanCode (js ''function(){ok()}'')) = cleanCode (js ''function(){ok()}'')"
  using cleanCode_idempotent_when_settled [of "js ''function(){ok()}''"] settled_demo_call
  by (simp add: cleanCode_demo_call)


section \<open>The example tree\<close>

text \<open>
  A suite as the runner builds it: the hook arrays, \<open>_timeout\<close>, the \<open>pending\<close> flag and
  two properties the report does not use are present, no derived field is.
\<close>

definition raw_suite :: "jstring \<Rightarrow> jstring option \<Rightarrow> test list \<Rightarrow> nat list \<Rightarrow> bool \<Rightarrow> suite" where
  "raw_suite title file tests suites root =
     \<lparr>s_title = Some title, s_fullFile = None, s_file = file, s_beforeHooks = None,
      s_afterHooks = None, s_tests = Some tests, s_suites = Some suites, s_passes = None,
      s_failures = None, s_pending = Some (Inl False), s_skipped = None,
      s_hasBeforeHooks = None, s_hasAfterHooks = None, s_hasTests = None, s_hasSuites = None,
      s_totalTests = None, s_totalPasses = None, s_totalFailures = None, s_totalPending = None,
      s_totalSkipped = None, s_hasPasses = None, s_hasFailures = None, s_hasPending = None,
      s_hasSkipped = None, s_root = Some root, s_uuid = None, s_duration = None,
      s_rootEmpty = None, s_timeout = Some 2000, s_beforeAll = Some [], s_beforeEach = Some [],
      s_afterAll = Some [], s_afterEach = Some [],
      s_others = [(''ctx'', JObj []), (''delayed'', JBool False)]\<rparr>"

text \<open>
  The example of the specification: a root suite whose one child has a passed test and a
  test that failed with \<open>actual = "foo"\<close>, \<open>expected = "bar"\<close> and no \<open>showDiff\<close>.
\<close>

definition demo_passed :: rawTest where
  "demo_passed = demo_test\<lparr>t_body := None, t_parent := Some 1\<rparr>"

definition demo_err_strings :: rawErr where
  "demo_err_strings =
     \<lparr>e_name = Some (js ''AssertionError''), e_message = Some (js ''expected foo to equal bar''),
      e_actual = JStr (js ''foo''), e_expected = JStr (js ''bar''), e_stack = None,
      e_showDiff = JUndefined\<rparr>"

definition demo_failed :: rawTest where
  "demo_failed =
     demo_test\<lparr>t_title := Some (js ''subtracts''), t_fullTitle := Some (js ''math subtracts''),
                t_body := None, t_state := Some (js ''failed''), t_speed := None,
                t_err := Some demo_err_strings, t_parent := Some 1\<rparr>"

definition demo_heap :: heap where
  "demo_heap =
     [0 \<mapsto> raw_suite [] None [] [1] True,
      1 \<mapsto> raw_suite (js ''math'') (Some (js ''/work/test/math.js''))
             [Raw demo_passed, Raw demo_failed] [] False]"

definition demo_state :: state where
  "demo_state = \<lparr>heap = demo_heap, total = 0, drawn = 0\<rparr>"


section \<open>The keys of a normalized suite\<close>

text \<open>The keys that \<open>cleanSuite\<close> assigns.\<close>

definition derived_keys :: "string list" where
  "derived_keys =
     [''uuid'', ''beforeHooks'', ''afterHooks'', ''tests'', ''fullFile'', ''file'', ''passes'',
      ''failures'', ''pending'', ''skipped'', ''hasBeforeHooks'', ''hasAfterHooks'', ''hasTests'',
      ''hasSuites'', ''totalTests'', ''totalPasses'', ''totalFailures'', ''totalPending'',
      ''totalSkipped'', ''hasPasses'', ''hasFailures'', ''hasPending'', ''hasSkipped'',
      ''duration'', ''rootEmpty'']"

lemma set_present_keep:
  "set (present k (keep_prop keep k v)) = set (present k v) \<inter> set keep"
  by (cases v) (simp_all add: present_def keep_prop_def)

lemma set_others_keep:
  "fst ` set (filter (\<lambda>(prop, val). \<not> prop \<notin> set keep) ps) = fst ` set ps \<inter> set keep"
  by (induction ps) auto

lemma own_keys_removeAll:
  "set (own_keys (removeAllPropsFromObjExcept x keep)) = set (own_keys x) \<inter> set keep"
  unfolding own_keys_def removeAllPropsFromObjExcept_def
  by (simp only: suite.simps set_append set_map set_present_keep set_others_keep Int_Un_distrib2)
text \<open>A key is an own property when its field holds a value.\<close>

definition has :: "'a option \<Rightarrow> bool" where
  "has v = (v \<noteq> None)"

lemma has_simps [simp]: "has (Some x)" "\<not> has None"
  by (simp_all add: has_def)

lemma in_set_present: "(k \<in> set (present k' v)) = (k = k' \<and> has v)"
  by (cases v) (auto simp add: present_def)

lemma own_keys_assign_derived_iff:
  "(k \<in> set (own_keys (assign_derived ev (x\<lparr>s_uuid := Some u\<rparr>) bh ah ct subs))) =
     (k \<in> set derived_keys \<or> k \<in> set (own_keys x))"
  unfolding own_keys_def assign_derived_def assign_collections_def Let_def derived_keys_def
  by (simp add: in_set_present) argo

lemma own_keys_assign_derived:
  "set (own_keys (assign_derived ev (x\<lparr>s_uuid := Some u\<rparr>) bh ah ct subs)) =
     set (own_keys x) \<union> set derived_keys"
  using own_keys_assign_derived_iff by blast
lemma derived_keys_allowed: "set derived_keys \<subseteq> set allow_list"
  by (simp add: derived_keys_def allow_list_def)

lemma allow_list_split:
  "(k \<in> set allow_list) =
     (k \<in> set derived_keys \<or> k = ''title'' \<or> k = ''suites'' \<or> k = ''root'' \<or> k = ''_timeout'')"
  unfolding derived_keys_def allow_list_def list.set insert_iff empty_iff
  by argo

lemma passed_keys:
  "has (s_title s) \<Longrightarrow> ''title'' \<in> set (own_keys s)"
  "has (s_suites s) \<Longrightarrow> ''suites'' \<in> set (own_keys s)"
  "has (s_root s) \<Longrightarrow> ''root'' \<in> set (own_keys s)"
  "has (s_timeout s) \<Longrightarrow> ''_timeout'' \<in> set (own_keys s)"
  by (simp_all add: own_keys_def in_set_present)

lemma hooks_after_cleaning:
  "s_beforeHooks (removeAllPropsFromObjExcept (assign_derived ev x bh ah ct subs) allow_list) = Some bh"
  "s_afterHooks (removeAllPropsFromObjExcept (assign_derived ev x bh ah ct subs) allow_list) = Some ah"
  by (simp_all add: removeAllPropsFromObjExcept_def keep_prop_def allow_list_def
      assign_derived_def assign_collections_def Let_def)


lemma cleaned_keys:
  fixes x :: suite
  defines "y \<equiv> \<lambda>ev u bh ah ct subs.
     removeAllPropsFromObjExcept (assign_derived ev (x\<lparr>s_uuid := Some u\<rparr>) bh ah ct subs) allow_list"
  shows "set (own_keys (y ev u bh ah ct subs)) = (set (own_keys x) \<union> set derived_keys) \<inter> set allow_list"
    and "set derived_keys \<subseteq> set (own_keys (y ev u bh ah ct subs))"
    and "has (s_title x) \<Longrightarrow> has (s_suites x) \<Longrightarrow> has (s_root x) \<Longrightarrow> has (s_timeout x) \<Longrightarrow>
         set (own_keys (y ev u bh ah ct subs)) = set allow_list"
proof -
  show eq: "set (own_keys (y ev u bh ah ct subs)) =
      (set (own_keys x) \<union> set derived_keys) \<inter> set allow_list"
    by (simp add: y_def own_keys_removeAll own_keys_assign_derived)
  show "set derived_keys \<subseteq> set (own_keys (y ev u bh ah ct subs))"
    unfolding eq using derived_keys_allowed by blast
  assume "has (s_title x)" "has (s_suites x)" "has (s_root x)" "has (s_timeout x)"
  then have "k \<in> set allow_list \<Longrightarrow> k \<in> set (own_keys x) \<union> set derived_keys" for k
    using passed_keys [of x] by (auto simp add: allow_list_split [of k])
  then show "set (own_keys (y ev u bh ah ct subs)) = set allow_list"
    unfolding eq by blast
qed

text \<open>
  C9.  When \<open>cleanSuite\<close> returns, the keys of the suite object are the keys it had before
  together with the derived keys, cut down to the allow-list: every key outside the
  allow-list is gone, every derived key is there, and when the suite came with \<open>title\<close>,
  \<open>root\<close> and \<open>_timeout\<close> its keys are exactly the allow-list.  The derived fields were
  computed before the pruning: \<open>beforeHooks\<close> and \<open>afterHooks\<close> hold the normalized hooks of
  \<open>_beforeAll\<close>, \<open>_beforeEach\<close>, \<open>_afterAll\<close> and \<open>_afterEach\<close>, which are no longer there.
\<close>

theorem cleanSuite_keys:
  "cleanSuite ev cfg st a = Inr st' \<longrightarrow>
     (\<exists>s s'. heap st a = Some s \<and> heap st' a = Some s'
        \<and> set (own_keys s') = (set (own_keys s) \<union> set derived_keys) \<inter> set allow_list
        \<and> set (own_keys s') \<subseteq> set allow_list
        \<and> set derived_keys \<subseteq> set (own_keys s')
        \<and> (\<forall>k \<in> set (own_keys s). k \<notin> set allow_list \<longrightarrow> k \<notin> set (own_keys s'))
        \<and> (has (s_title s) \<and> has (s_root s) \<and> has (s_timeout s) \<longrightarrow>
             set (own_keys s') = set allow_list)
        \<and> s_beforeAll s' = None \<and> s_beforeEach s' = None
        \<and> s_afterAll s' = None \<and> s_afterEach s' = None
        \<and> (\<exists>h n1 bh n2 ah n3.
              map_cleanTest ev cfg h n1 (concat_arg (s_beforeAll s) @ concat_arg (s_beforeEach s))
                = Inr (bh, n2)
              \<and> map_cleanTest ev cfg h n2 (concat_arg (s_afterAll s) @ concat_arg (s_afterEach s))
                = Inr (ah, n3)
              \<and> s_beforeHooks s' = Some bh \<and> s_afterHooks s' = Some ah))"
proof
  assume "cleanSuite ev cfg st a = Inr st'"
  then show "\<exists>s s'. heap st a = Some s \<and> heap st' a = Some s'
        \<and> set (own_keys s') = (set (own_keys s) \<union> set derived_keys) \<inter> set allow_list
        \<and> set (own_keys s') \<subseteq> set allow_list
        \<and> set derived_keys \<subseteq> set (own_keys s')
        \<and> (\<forall>k \<in> set (own_keys s). k \<notin> set allow_list \<longrightarrow> k \<notin> set (own_keys s'))
        \<and> (has (s_title s) \<and> has (s_root s) \<and> has (s_timeout s) \<longrightarrow>
             set (own_keys s') = set allow_list)
        \<and> s_beforeAll s' = None \<and> s_beforeEach s' = None
        \<and> s_afterAll s' = None \<and> s_afterEach s' = None
        \<and> (\<exists>h n1 bh n2 ah n3.
              map_cleanTest ev cfg h n1 (concat_arg (s_beforeAll s) @ concat_arg (s_beforeEach s))
                = Inr (bh, n2)
              \<and> map_cleanTest ev cfg h n2 (concat_arg (s_afterAll s) @ concat_arg (s_afterEach s))
                = Inr (ah, n3)
              \<and> s_beforeHooks s' = Some bh \<and> s_afterHooks s' = Some ah)"
  proof (rule cleanSuite_Inr)
    fix suite0 beforeHooks n1 afterHooks n2 cleanTests n3 rawTests subs
    let ?u = "uuid_v4 ev (drawn st)"
    let ?h = "(heap st)(a \<mapsto> suite0\<lparr>s_uuid := Some ?u\<rparr>)"
    let ?s' = "removeAllPropsFromObjExcept
                 (assign_derived ev (suite0\<lparr>s_uuid := Some ?u\<rparr>) beforeHooks afterHooks cleanTests subs)
                 allow_list"
    assume s0: "heap st a = Some suite0" and subs: "s_suites suite0 = Some subs"
      and bh: "map_cleanTest ev cfg ?h (Suc (drawn st))
                 (concat_arg (s_beforeAll suite0) @ concat_arg (s_beforeEach suite0)) = Inr (beforeHooks, n1)"
      and ah: "map_cleanTest ev cfg ?h n1
                 (concat_arg (s_afterAll suite0) @ concat_arg (s_afterEach suite0)) = Inr (afterHooks, n2)"
      and st': "st' = \<lparr>heap = (heap st)(a \<mapsto> ?s'), total = total st + int (length rawTests), drawn = n3\<rparr>"
    have h': "heap st' a = Some ?s'" by (simp add: st')
    have k1: "set (own_keys ?s') = (set (own_keys suite0) \<union> set derived_keys) \<inter> set allow_list"
      by (rule cleaned_keys(1))
    have k2: "set derived_keys \<subseteq> set (own_keys ?s')"
      by (rule cleaned_keys(2))
    have k3: "has (s_title suite0) \<and> has (s_root suite0) \<and> has (s_timeout suite0) \<longrightarrow>
                set (own_keys ?s') = set allow_list"
      using cleaned_keys(3) [of suite0] subs by simp
    have k4: "s_beforeAll ?s' = None \<and> s_beforeEach ?s' = None \<and> s_afterAll ?s' = None
                \<and> s_afterEach ?s' = None"
      by (simp add: removeAll_allow_deleted)
    have k5: "s_beforeHooks ?s' = Some beforeHooks \<and> s_afterHooks ?s' = Some afterHooks"
      by (simp add: hooks_after_cleaning)
    from k1 have k6: "set (own_keys ?s') \<subseteq> set allow_list"
      and k7: "\<forall>k \<in> set (own_keys suite0). k \<notin> set allow_list \<longrightarrow> k \<notin> set (own_keys ?s')"
      by blast+
    from bh ah k5 have k8: "\<exists>h n1 bh n2 ah n3.
              map_cleanTest ev cfg h n1 (concat_arg (s_beforeAll suite0) @ concat_arg (s_beforeEach suite0))
                = Inr (bh, n2)
              \<and> map_cleanTest ev cfg h n2 (concat_arg (s_afterAll suite0) @ concat_arg (s_afterEach suite0))
                = Inr (ah, n3)
              \<and> s_beforeHooks ?s' = Some bh \<and> s_afterHooks ?s' = Some ah"
      by blast
    from s0 h' k1 k6 k2 k7 k3 k4 k8 show ?thesis
      by (intro exI [of _ suite0] exI [of _ ?s'] conjI) simp_all
  qed
qed


section \<open>Suite trees in the store\<close>

text \<open>
  The shape of a finite suite tree: the address of a suite and the trees of its child
  suites, in array order.  The store holds the tree \<open>t\<close> when every node's \<open>suites\<close> array
  lists the roots of its subtrees; the tree is acyclic and unshared when its addresses are
  distinct.
\<close>

datatype stree = Node nat "stree list"

fun root_of :: "stree \<Rightarrow> nat" where
  "root_of (Node a ts) = a"

fun kids :: "stree \<Rightarrow> stree list" where
  "kids (Node a ts) = ts"

fun addrs :: "stree \<Rightarrow> nat list" where
  "addrs (Node a ts) = a # concat (map addrs ts)"

fun shaped :: "heap \<Rightarrow> stree \<Rightarrow> bool" where
  "shaped h (Node a ts) =
     (case h a of
        None \<Rightarrow> False
      | Some s \<Rightarrow> s_suites s = Some (map root_of ts) \<and> (\<forall>t \<in> set ts. shaped h t))"

text \<open>A suite as the runner hands it over: the four hook arrays, \<open>tests\<close> and \<open>suites\<close> exist.\<close>

definition wf_raw :: "suite \<Rightarrow> bool" where
  "wf_raw s =
     (has (s_beforeAll s) \<and> has (s_beforeEach s) \<and> has (s_afterAll s) \<and> has (s_afterEach s)
      \<and> has (s_tests s) \<and> has (s_suites s))"

text \<open>\<open>suite.tests.length\<close> and the truth of \<open>suite.root\<close> for the suite at an address.\<close>

definition n_tests :: "heap \<Rightarrow> nat \<Rightarrow> nat" where
  "n_tests h a =
     (case h a of None \<Rightarrow> 0 | Some s \<Rightarrow> (case s_tests s of None \<Rightarrow> 0 | Some ts \<Rightarrow> length ts))"

definition flagged :: "heap \<Rightarrow> nat \<Rightarrow> bool" where
  "flagged h a = (case h a of None \<Rightarrow> False | Some s \<Rightarrow> s_root s = Some True)"

text \<open>The pure result of mapping \<open>cleanTest\<close> over an array of tests.\<close>

fun cleaned_list :: "env \<Rightarrow> config \<Rightarrow> heap \<Rightarrow> nat \<Rightarrow> test list \<Rightarrow> cleaned list \<times> nat" where
  "cleaned_list ev cfg h n [] = ([], n)"
| "cleaned_list ev cfg h n (t # ts) =
     (let (c, t', n') = cleanTest ev cfg h n t;
          (cs, n'') = cleaned_list ev cfg h n' ts
      in (c # cs, n''))"

text \<open>
  \<open>s'\<close> is a normalized form of the raw suite \<open>s\<close>: it has the same child suites and root
  flag, its tests are the normalized tests of \<open>s\<close>, it carries the derived fields, and it has
  lost the hook arrays and every key outside the allow-list.
\<close>

definition cleaned_of :: "env \<Rightarrow> config \<Rightarrow> suite \<Rightarrow> suite \<Rightarrow> bool" where
  "cleaned_of ev cfg s s' =
     (s_suites s' = s_suites s \<and> s_root s' = s_root s
      \<and> (\<exists>h n. s_tests s' =
                  map_option (\<lambda>ts. map Clean (fst (cleaned_list ev cfg h n ts))) (s_tests s))
      \<and> s_totalTests s' = map_option length (s_tests s)
      \<and> has (s_uuid s') \<and> s_beforeAll s' = None
      \<and> set (own_keys s') = (set (own_keys s) \<union> set derived_keys) \<inter> set allow_list)"

lemma map_cleanTest_Some:
  "map_cleanTest ev cfg h n (map Some ts) = Inr (cleaned_list ev cfg h n ts)"
  by (induction ts arbitrary: n) (simp_all add: split_beta Let_def)

lemma cleaned_list_length: "length (fst (cleaned_list ev cfg h n ts)) = length ts"
  by (induction ts arbitrary: n) (simp_all add: split_beta Let_def)

lemma map_cleanTest_hooks:
  "has a \<Longrightarrow> has b \<Longrightarrow>
   map_cleanTest ev cfg h n (concat_arg a @ concat_arg b) = Inr (cleaned_list ev cfg h n (the a @ the b))"
  by (cases a; cases b) (simp_all add: concat_arg_def map_cleanTest_Some [symmetric])

lemma cleanSuite_wf:
  assumes "heap st a = Some s" and "wf_raw s"
  shows "\<exists>st' s'. cleanSuite ev cfg st a = Inr st' \<and> heap st' = (heap st)(a \<mapsto> s')
           \<and> total st' = total st + int (n_tests (heap st) a) \<and> cleaned_of ev cfg s s'"
proof -
  let ?u = "uuid_v4 ev (drawn st)"
  let ?s = "s\<lparr>s_uuid := Some ?u\<rparr>"
  let ?h = "(heap st)(a \<mapsto> ?s)"
  from assms(2) obtain ts subs where ts: "s_tests s = Some ts" and subs: "s_suites s = Some subs"
    and hooks: "has (s_beforeAll s)" "has (s_beforeEach s)" "has (s_afterAll s)" "has (s_afterEach s)"
    by (auto simp: wf_raw_def has_def)
  obtain bh n1 where bh: "cleaned_list ev cfg ?h (Suc (drawn st)) (the (s_beforeAll s) @ the (s_beforeEach s)) = (bh, n1)"
    by (cases "cleaned_list ev cfg ?h (Suc (drawn st)) (the (s_beforeAll s) @ the (s_beforeEach s))")
  obtain ah n2 where ah: "cleaned_list ev cfg ?h n1 (the (s_afterAll s) @ the (s_afterEach s)) = (ah, n2)"
    by (cases "cleaned_list ev cfg ?h n1 (the (s_afterAll s) @ the (s_afterEach s))")
  obtain ct n3 where ct: "cleaned_list ev cfg ?h n2 ts = (ct, n3)"
    by (cases "cleaned_list ev cfg ?h n2 ts")
  let ?s' = "removeAllPropsFromObjExcept (assign_derived ev ?s bh ah ct subs) allow_list"
  let ?st' = "\<lparr>heap = ?h(a \<mapsto> ?s'), total = total st + int (length ts), drawn = n3\<rparr>"
  have len: "length ct = length ts"
    using cleaned_list_length [of ev cfg ?h n2 ts] ct by simp
  have run: "cleanSuite ev cfg st a = Inr ?st'"
    using assms(1) ts subs hooks bh ah ct
    by (simp add: cleanSuite_def Let_def split_beta pruned_hooks map_cleanTest_hooks
        map_cleanTest_Some)
  have "s_tests ?s' = map_option (\<lambda>ts. map Clean (fst (cleaned_list ev cfg ?h n2 ts))) (s_tests s)"
    using ts ct by (simp add: removeAll_allow_kept assign_derived_fields)
  then have "\<exists>h n. s_tests ?s' = map_option (\<lambda>ts. map Clean (fst (cleaned_list ev cfg h n ts))) (s_tests s)"
    by blast
  then have c: "cleaned_of ev cfg s ?s'"
    using ts subs len
    by (simp add: cleaned_of_def removeAll_allow_kept removeAll_allow_deleted assign_derived_fields
        cleaned_keys(1))
  have n: "n_tests (heap st) a = length ts"
    using assms(1) ts by (simp add: n_tests_def)
  from run c n show ?thesis
    by (intro exI [of _ ?st'] exI [of _ ?s']) simp
qed

lemma map_filter_Some: "List.map_filter (\<lambda>v. v) (map Some xs) = xs"
  by (induction xs) (simp_all add: List.map_filter_simps)

lemma unconcat_unvisited: "unconcat None b (None # concat_arg b) = (None, b)"
  by (cases b) (simp_all add: unconcat_def concat_arg_def map_filter_Some)

lemma cleanSuite_cleaned:
  assumes "heap st a = Some s" and "s_beforeAll s = None"
  shows "cleanSuite ev cfg st a =
           Inl (TypeError,
                \<lparr>heap = (heap st)(a \<mapsto> s\<lparr>s_uuid := Some (uuid_v4 ev (drawn st))\<rparr>),
                 total = total st, drawn = Suc (drawn st)\<rparr>)"
proof -
  let ?s = "s\<lparr>s_uuid := Some (uuid_v4 ev (drawn st))\<rparr>"
  have same: "?s\<lparr>s_beforeAll := None\<rparr> = ?s"
    using assms(2) by (cases s) simp
  have "concat_arg (None :: test list option) = [None]"
    by (simp add: concat_arg_def)
  with assms have "cleanSuite ev cfg st a =
           Inl (TypeError,
                \<lparr>heap = (heap st)(a \<mapsto> ?s\<lparr>s_beforeAll := None\<rparr>),
                 total = total st, drawn = Suc (drawn st)\<rparr>)"
    by (simp add: cleanSuite_def Let_def unconcat_unvisited)
  then show ?thesis by (simp only: same)
qed


section \<open>The traversal on a forest\<close>

definition roots :: "stree list \<Rightarrow> nat list" where
  "roots F = map root_of F"

definition nodes :: "stree list \<Rightarrow> nat list" where
  "nodes F = concat (map addrs F)"

definition below :: "stree list \<Rightarrow> nat list" where
  "below F = nodes (concat (map kids F))"

text \<open>A suite that the traversal has yet to normalize: raw, and not flagged root.\<close>

definition pending_raw :: "heap \<Rightarrow> nat \<Rightarrow> bool" where
  "pending_raw h a = (\<exists>s. h a = Some s \<and> wf_raw s \<and> s_root s \<noteq> Some True)"

lemma addrs_kids: "addrs t = root_of t # nodes (kids t)"
  by (cases t) (simp add: nodes_def)

lemma nodes_Cons [simp]: "nodes (t # F) = root_of t # nodes (kids t) @ nodes F"
  by (cases t) (simp add: nodes_def)

lemma nodes_simps [simp]: "nodes [] = []" "nodes (F @ G) = nodes F @ nodes G"
  by (simp_all add: nodes_def)

lemma below_simps [simp]:
  "below [] = []" "below (t # F) = nodes (kids t) @ below F" "below (F @ G) = below F @ below G"
  by (simp_all add: below_def)

lemma roots_simps [simp]:
  "roots [] = []" "roots (t # F) = root_of t # roots F" "roots (F @ G) = roots F @ roots G"
  by (simp_all add: roots_def)

lemma set_nodes: "set (nodes F) = set (roots F) \<union> set (below F)"
  by (induction F) auto

lemma sum_nodes:
  "sum_list (map f (nodes F)) = sum_list (map f (roots F)) + sum_list (map (f :: nat \<Rightarrow> nat) (below F))"
  by (induction F) simp_all

lemma root_in_addrs: "root_of t \<in> set (addrs t)"
  by (cases t) simp

lemma shaped_cong:
  "(\<And>b. b \<in> set (addrs t) \<Longrightarrow> map_option s_suites (h' b) = map_option s_suites (h b)) \<Longrightarrow>
   shaped h' t = shaped h t"
proof (induction t)
  case (Node a ts)
  have kids: "shaped h' k = shaped h k" if "k \<in> set ts" for k
    using that Node.prems by (intro Node.IH) auto
  from Node.prems [of a] have "map_option s_suites (h' a) = map_option s_suites (h a)" by simp
  with kids show ?case
    by (cases "h a"; cases "h' a") auto
qed

lemma shaped_kids:
  "shaped h t \<Longrightarrow> \<exists>s. h (root_of t) = Some s \<and> s_suites s = Some (roots (kids t))
                    \<and> (\<forall>k \<in> set (kids t). shaped h k)"
  by (cases t) (auto simp: roots_def split: option.splits)

lemma each_suite_wf:
  assumes "distinct ks" and "\<forall>k \<in> set ks. \<exists>s. heap st k = Some s \<and> wf_raw s"
  shows "\<exists>st'. each_suite ev cfg st q ks = Inr (st', q @ ks)
           \<and> total st' = total st + int (sum_list (map (n_tests (heap st)) ks))
           \<and> (\<forall>b. b \<notin> set ks \<longrightarrow> heap st' b = heap st b)
           \<and> (\<forall>k \<in> set ks. \<exists>s s'. heap st k = Some s \<and> heap st' k = Some s' \<and> cleaned_of ev cfg s s')"
  using assms
proof (induction ks arbitrary: st q)
  case Nil
  then show ?case by simp
next
  case (Cons k ks)
  from Cons.prems obtain s where s: "heap st k = Some s" "wf_raw s" by auto
  from cleanSuite_wf [OF s, of ev cfg] obtain st1 s1
    where st1: "cleanSuite ev cfg st k = Inr st1" "heap st1 = (heap st)(k \<mapsto> s1)"
      "total st1 = total st + int (n_tests (heap st) k)" "cleaned_of ev cfg s s1"
    by blast
  from Cons.prems have k: "k \<notin> set ks" "distinct ks" by simp_all
  have same: "heap st1 b = heap st b" if "b \<in> set ks" for b
    using that k(1) st1(2) by auto
  then have "\<forall>j \<in> set ks. \<exists>s. heap st1 j = Some s \<and> wf_raw s"
    using Cons.prems(2) by simp
  from Cons.IH [OF k(2) this, of "q @ [k]"] obtain st'
    where st': "each_suite ev cfg st1 (q @ [k]) ks = Inr (st', (q @ [k]) @ ks)"
      "total st' = total st1 + int (sum_list (map (n_tests (heap st1)) ks))"
      "\<forall>b. b \<notin> set ks \<longrightarrow> heap st' b = heap st1 b"
      "\<forall>j \<in> set ks. \<exists>s s'. heap st1 j = Some s \<and> heap st' j = Some s' \<and> cleaned_of ev cfg s s'"
    by blast
  have sums: "map (n_tests (heap st1)) ks = map (n_tests (heap st)) ks"
    using same by (simp add: n_tests_def)
  have 1: "each_suite ev cfg st q (k # ks) = Inr (st', q @ k # ks)"
    using st1(1) st'(1) by simp
  have 2: "total st' = total st + int (sum_list (map (n_tests (heap st)) (k # ks)))"
    using st1(3) st'(2) sums by simp
  have 3: "\<forall>b. b \<notin> set (k # ks) \<longrightarrow> heap st' b = heap st b"
    using st'(3) st1(2) by simp
  have 4: "\<forall>j \<in> set (k # ks). \<exists>s s'. heap st j = Some s \<and> heap st' j = Some s' \<and> cleaned_of ev cfg s s'"
  proof
    fix j assume "j \<in> set (k # ks)"
    then consider "j = k" | "j \<in> set ks" by auto
    then show "\<exists>s s'. heap st j = Some s \<and> heap st' j = Some s' \<and> cleaned_of ev cfg s s'"
    proof cases
      case 1
      with st'(3) k(1) st1(2) have "heap st' j = Some s1" by simp
      with 1 s(1) st1(4) show ?thesis by blast
    next
      case 2
      with st'(4) same show ?thesis by auto
    qed
  qed
  from 1 2 3 4 show ?case by blast
qed


lemma distinct_roots:
  "distinct (nodes F) \<Longrightarrow> distinct (roots F) \<and> set (roots F) \<inter> set (below F) = {}"
proof (induction F)
  case Nil
  then show ?case by simp
next
  case (Cons t F)
  then have 1: "root_of t \<notin> set (nodes (kids t))" "root_of t \<notin> set (nodes F)"
    "distinct (nodes F)" "set (nodes (kids t)) \<inter> set (nodes F) = {}"
    by auto
  from Cons.IH [OF 1(3)] have 2: "distinct (roots F)" "set (roots F) \<inter> set (below F) = {}"
    by simp_all
  from 1 2 show ?case
    by (auto simp: set_nodes)
qed

lemma addrs_in_nodes: "t \<in> set F \<Longrightarrow> b \<in> set (addrs t) \<Longrightarrow> b \<in> set (nodes F)"
  by (auto simp: nodes_def)

lemma n_tests_cong: "h' a = h a \<Longrightarrow> n_tests h' a = n_tests h a"
  by (simp add: n_tests_def)

lemma flagged_cong: "map_option s_root (h' a) = map_option s_root (h a) \<Longrightarrow> flagged h' a = flagged h a"
  by (cases "h a"; cases "h' a") (simp_all add: flagged_def)

lemma traverse_loop_unfold:
  assumes "heap st a = Some s"
    and "(if s_root s = Some True then cleanSuite ev cfg st a else Inr st) = Inr st1"
    and "heap st1 a = Some s1" and "s_suites s1 = Some subs"
    and "each_suite ev cfg st1 queue subs = Inr (st2, queue2)"
  shows "traverse_loop ev cfg st queue a =
           (case queue2 of [] \<Rightarrow> Some (Inr st2) | n # q \<Rightarrow> traverse_loop ev cfg st2 q n)"
proof -
  have "(if length subs \<noteq> 0 then each_suite ev cfg st1 queue subs else Inr (st1, queue))
          = Inr (st2, queue2)"
    using assms(5) by (cases subs) simp_all
  with assms(1-4) show ?thesis
    by (subst traverse_loop.simps) simp
qed


text \<open>
  The loop invariant.  \<open>T\<close> is the tree of the suite \<open>next\<close>, \<open>Q\<close> the trees of the suites in
  the queue.  The suites below the roots of these trees are still raw; the queued roots have
  been dealt with and are not flagged root; \<open>next\<close> is normalized in this round when it is
  flagged root.
\<close>

lemma traverse_forest:
  assumes "distinct (nodes (T # Q))"
    and "\<forall>t \<in> set (T # Q). shaped (heap st) t"
    and "\<forall>d \<in> set (below (T # Q)). pending_raw (heap st) d"
    and "\<forall>r \<in> set (roots Q). \<not> flagged (heap st) r"
    and "flagged (heap st) (root_of T) \<longrightarrow> (\<exists>s. heap st (root_of T) = Some s \<and> wf_raw s)"
  shows "\<exists>st'. traverse_loop ev cfg st (roots Q) (root_of T) = Some (Inr st')
      \<and> total st' = total st
           + int ((if flagged (heap st) (root_of T) then n_tests (heap st) (root_of T) else 0)
                  + sum_list (map (n_tests (heap st)) (below (T # Q))))
      \<and> (\<forall>b. b \<notin> set (nodes (T # Q)) \<longrightarrow> heap st' b = heap st b)
      \<and> (\<forall>d \<in> set (below (T # Q)).
            \<exists>s s'. heap st d = Some s \<and> heap st' d = Some s' \<and> cleaned_of ev cfg s s')
      \<and> (\<forall>r \<in> set (roots Q). heap st' r = heap st r)
      \<and> (if flagged (heap st) (root_of T)
          then (\<exists>s s'. heap st (root_of T) = Some s \<and> heap st' (root_of T) = Some s' \<and> cleaned_of ev cfg s s')
          else heap st' (root_of T) = heap st (root_of T))"
  using assms
proof (induction "length (nodes (T # Q))" arbitrary: st T Q rule: less_induct)
  case less
  let ?a = "root_of T" and ?ks = "kids T"
  let ?fl = "flagged (heap st) ?a"
  from less.prems(2) have "shaped (heap st) T" by simp
  from shaped_kids [OF this] obtain s
    where s: "heap st ?a = Some s" "s_suites s = Some (roots ?ks)"
      "\<forall>k \<in> set ?ks. shaped (heap st) k"
    by blast
  have fl: "?fl = (s_root s = Some True)"
    using s(1) by (simp add: flagged_def)
  from less.prems(1) have d: "?a \<notin> set (nodes ?ks)" "?a \<notin> set (nodes Q)"
    "distinct (nodes ?ks)" "distinct (nodes Q)" "set (nodes ?ks) \<inter> set (nodes Q) = {}"
    by auto
  from distinct_roots [OF d(3)] have dk: "distinct (roots ?ks)" "set (roots ?ks) \<inter> set (below ?ks) = {}"
    by simp_all
  have rk: "set (roots ?ks) \<subseteq> set (nodes ?ks)" "set (below ?ks) \<subseteq> set (nodes ?ks)"
    "set (roots Q) \<subseteq> set (nodes Q)" "set (below Q) \<subseteq> set (nodes Q)"
    by (auto simp: set_nodes)
  \<comment> \<open>the root of \<open>T\<close>\<close>
  have "\<exists>st1. (if s_root s = Some True then cleanSuite ev cfg st ?a else Inr st) = Inr st1
      \<and> (\<forall>b. b \<noteq> ?a \<longrightarrow> heap st1 b = heap st b)
      \<and> (\<exists>s1. heap st1 ?a = Some s1 \<and> s_suites s1 = Some (roots ?ks))
      \<and> total st1 = total st + int (if ?fl then n_tests (heap st) ?a else 0)
      \<and> (if ?fl then (\<exists>s1. heap st1 ?a = Some s1 \<and> cleaned_of ev cfg s s1) else heap st1 ?a = heap st ?a)"
  proof (cases ?fl)
    case True
    with less.prems(5) s(1) have "wf_raw s" by simp
    from cleanSuite_wf [OF s(1) this, of ev cfg] obtain st1 s1
      where "cleanSuite ev cfg st ?a = Inr st1" "heap st1 = (heap st)(?a \<mapsto> s1)"
        "total st1 = total st + int (n_tests (heap st) ?a)" "cleaned_of ev cfg s s1"
      by blast
    with True fl s(2) show ?thesis
      by (intro exI [of _ st1]) (simp add: cleaned_of_def)
  next
    case False
    with fl s show ?thesis
      by (intro exI [of _ st]) simp
  qed
  then obtain st1 where st1:
    "(if s_root s = Some True then cleanSuite ev cfg st ?a else Inr st) = Inr st1"
    "\<forall>b. b \<noteq> ?a \<longrightarrow> heap st1 b = heap st b"
    "\<exists>s1. heap st1 ?a = Some s1 \<and> s_suites s1 = Some (roots ?ks)"
    "total st1 = total st + int (if ?fl then n_tests (heap st) ?a else 0)"
    "if ?fl then (\<exists>s1. heap st1 ?a = Some s1 \<and> cleaned_of ev cfg s s1) else heap st1 ?a = heap st ?a"
    by blast
  \<comment> \<open>its children\<close>
  have same1: "heap st1 k = heap st k" if "k \<in> set (nodes ?ks)" for k
    using that d(1) st1(2) by metis
  have "\<forall>k \<in> set (roots ?ks). \<exists>s. heap st1 k = Some s \<and> wf_raw s"
  proof
    fix k assume k: "k \<in> set (roots ?ks)"
    with rk(1) have "k \<in> set (below (T # Q))" by auto
    with less.prems(3) have "pending_raw (heap st) k" by blast
    with k rk(1) same1 show "\<exists>s. heap st1 k = Some s \<and> wf_raw s"
      by (auto simp: pending_raw_def)
  qed
  from each_suite_wf [OF dk(1) this, of ev cfg "roots Q"] obtain st2 where st2:
    "each_suite ev cfg st1 (roots Q) (roots ?ks) = Inr (st2, roots Q @ roots ?ks)"
    "total st2 = total st1 + int (sum_list (map (n_tests (heap st1)) (roots ?ks)))"
    "\<forall>b. b \<notin> set (roots ?ks) \<longrightarrow> heap st2 b = heap st1 b"
    "\<forall>k \<in> set (roots ?ks). \<exists>s s'. heap st1 k = Some s \<and> heap st2 k = Some s' \<and> cleaned_of ev cfg s s'"
    by blast
  from st1(3) obtain s1 where s1: "heap st1 ?a = Some s1" "s_suites s1 = Some (roots ?ks)"
    by blast
  have unfold: "traverse_loop ev cfg st (roots Q) ?a =
      (case roots (Q @ ?ks) of [] \<Rightarrow> Some (Inr st2) | n # q \<Rightarrow> traverse_loop ev cfg st2 q n)"
    using traverse_loop_unfold [OF s(1) st1(1) s1 st2(1)] by simp
  have D1: "heap st2 b = heap st b" if "b \<noteq> ?a" "b \<notin> set (roots ?ks)" for b
    using that st1(2) st2(3) by simp
  have D2: "\<exists>s s'. heap st k = Some s \<and> heap st2 k = Some s' \<and> cleaned_of ev cfg s s'"
    if "k \<in> set (roots ?ks)" for k
    using that st2(4) same1 rk(1) by fastforce
  have "map (n_tests (heap st1)) (roots ?ks) = map (n_tests (heap st)) (roots ?ks)"
    using same1 rk(1) by (auto intro: n_tests_cong)
  with st1(4) st2(2) have D3: "total st2 = total st
      + int ((if ?fl then n_tests (heap st) ?a else 0) + sum_list (map (n_tests (heap st)) (roots ?ks)))"
    by simp
  have Da: "heap st2 ?a = heap st1 ?a"
    using st2(3) d(1) rk(1) by auto
  show ?case
  proof (cases "Q @ ?ks")
    case Nil
    then have e: "Q = []" "?ks = []" by simp_all
    have "traverse_loop ev cfg st (roots Q) ?a = Some (Inr st2)"
      using unfold Nil by simp
    moreover have "total st2 = total st + int ((if ?fl then n_tests (heap st) ?a else 0)
          + sum_list (map (n_tests (heap st)) (below (T # Q))))"
      using D3 e by simp
    moreover have "\<forall>b. b \<notin> set (nodes (T # Q)) \<longrightarrow> heap st2 b = heap st b"
      using D1 e by simp
    moreover have "if ?fl then (\<exists>s s'. heap st ?a = Some s \<and> heap st2 ?a = Some s' \<and> cleaned_of ev cfg s s')
        else heap st2 ?a = heap st ?a"
      using st1(5) Da s(1) by (cases ?fl) auto
    ultimately show ?thesis
      using e by (intro exI [of _ st2]) simp
  next
    case (Cons T' Q')
    have len: "length (nodes (T' # Q')) < length (nodes (T # Q))"
      unfolding Cons [symmetric] by simp
    have E1: "distinct (nodes (T' # Q'))"
      unfolding Cons [symmetric] using d by auto
    have away: "b \<noteq> ?a" if "b \<in> set (nodes (Q @ ?ks))" for b
      using that d(1,2) by auto
    have sub: "map_option s_suites (heap st2 b) = map_option s_suites (heap st b)"
      and flg: "map_option s_root (heap st2 b) = map_option s_root (heap st b)"
      if "b \<in> set (nodes (Q @ ?ks))" for b
    proof -
      show "map_option s_suites (heap st2 b) = map_option s_suites (heap st b)"
      proof (cases "b \<in> set (roots ?ks)")
        case True
        from D2 [OF this] show ?thesis by (auto simp: cleaned_of_def)
      next
        case False
        with D1 away [OF that] show ?thesis by simp
      qed
      show "map_option s_root (heap st2 b) = map_option s_root (heap st b)"
      proof (cases "b \<in> set (roots ?ks)")
        case True
        from D2 [OF this] show ?thesis by (auto simp: cleaned_of_def)
      next
        case False
        with D1 away [OF that] show ?thesis by simp
      qed
    qed
    have E2: "\<forall>t \<in> set (T' # Q'). shaped (heap st2) t"
    proof
      fix t assume t: "t \<in> set (T' # Q')"
      then have t': "t \<in> set (Q @ ?ks)" by (simp add: Cons)
      then have "shaped (heap st) t" using less.prems(2) s(3) by auto
      moreover have "shaped (heap st2) t = shaped (heap st) t"
        by (rule shaped_cong) (rule sub, rule addrs_in_nodes [OF t'])
      ultimately show "shaped (heap st2) t" by simp
    qed
    have low: "heap st2 b = heap st b" "b \<in> set (below (T # Q))"
      if "b \<in> set (below (Q @ ?ks))" for b
    proof -
      from that have "b \<in> set (below Q) \<or> b \<in> set (below ?ks)" by auto
      then have "b \<notin> set (roots ?ks)"
        using dk(2) d(5) rk by auto
      moreover from that have "b \<noteq> ?a"
        using away rk by (auto simp: set_nodes)
      ultimately show "heap st2 b = heap st b" by (rule D1 [rotated])
      from that rk(2) show "b \<in> set (below (T # Q))" by auto
    qed
    have E3: "\<forall>b \<in> set (below (T' # Q')). pending_raw (heap st2) b"
      unfolding Cons [symmetric] using low less.prems(3) by (simp add: pending_raw_def)
    have E4: "\<not> flagged (heap st2) r" if "r \<in> set (roots (Q @ ?ks))" for r
    proof -
      from that have n: "r \<in> set (nodes (Q @ ?ks))" by (auto simp: set_nodes)
      have "\<not> flagged (heap st) r"
      proof (cases "r \<in> set (roots Q)")
        case True
        with less.prems(4) show ?thesis by simp
      next
        case False
        with that have "r \<in> set (below (T # Q))" using rk(1) by auto
        with less.prems(3) have "pending_raw (heap st) r" by blast
        then show ?thesis by (auto simp: pending_raw_def flagged_def)
      qed
      with flagged_cong [of "heap st2" r "heap st", OF flg [OF n]] show ?thesis by simp
    qed
    from E4 have E4': "\<forall>r \<in> set (roots Q'). \<not> flagged (heap st2) r" and E5: "\<not> flagged (heap st2) (root_of T')"
      unfolding Cons by simp_all
    from less.hyps [OF len E1 E2 E3 E4'] E5 obtain st' where I:
      "traverse_loop ev cfg st2 (roots Q') (root_of T') = Some (Inr st')"
      "total st' = total st2 + int (sum_list (map (n_tests (heap st2)) (below (T' # Q'))))"
      "\<forall>b. b \<notin> set (nodes (T' # Q')) \<longrightarrow> heap st' b = heap st2 b"
      "\<forall>b \<in> set (below (T' # Q')). \<exists>s s'. heap st2 b = Some s \<and> heap st' b = Some s' \<and> cleaned_of ev cfg s s'"
      "\<forall>r \<in> set (roots Q'). heap st' r = heap st2 r"
      "heap st' (root_of T') = heap st2 (root_of T')"
      by auto
    have I5: "heap st' r = heap st2 r" if "r \<in> set (roots (Q @ ?ks))" for r
      using that I(5,6) unfolding Cons by auto
    have F1: "traverse_loop ev cfg st (roots Q) ?a = Some (Inr st')"
      using unfold I(1) by (simp add: Cons)
    have m: "map (n_tests (heap st2)) (below (Q @ ?ks)) = map (n_tests (heap st)) (below (Q @ ?ks))"
      using low(1) by (auto intro: n_tests_cong)
    have "total st' = total st2 + int (sum_list (map (n_tests (heap st)) (below (Q @ ?ks))))"
      using I(2) unfolding Cons [symmetric] m .
    with D3 have F2: "total st' = total st + int ((if ?fl then n_tests (heap st) ?a else 0)
          + sum_list (map (n_tests (heap st)) (below (T # Q))))"
      by (simp add: sum_nodes [of _ ?ks])
    have F3: "\<forall>b. b \<notin> set (nodes (T # Q)) \<longrightarrow> heap st' b = heap st b"
    proof (intro allI impI)
      fix b assume b: "b \<notin> set (nodes (T # Q))"
      then have "b \<notin> set (nodes (T' # Q'))" unfolding Cons [symmetric] by auto
      with I(3) have "heap st' b = heap st2 b" by simp
      also have "\<dots> = heap st b" using b rk(1) by (intro D1) auto
      finally show "heap st' b = heap st b" .
    qed
    have F4: "\<forall>b \<in> set (below (T # Q)). \<exists>s s'. heap st b = Some s \<and> heap st' b = Some s' \<and> cleaned_of ev cfg s s'"
    proof
      fix b assume "b \<in> set (below (T # Q))"
      then consider "b \<in> set (roots ?ks)" | "b \<in> set (below (Q @ ?ks))"
        by (auto simp: set_nodes)
      then show "\<exists>s s'. heap st b = Some s \<and> heap st' b = Some s' \<and> cleaned_of ev cfg s s'"
      proof cases
        case 1
        then have "heap st' b = heap st2 b" by (intro I5) simp
        with D2 [OF 1] show ?thesis by simp
      next
        case 2
        with I(4) have "\<exists>s s'. heap st2 b = Some s \<and> heap st' b = Some s' \<and> cleaned_of ev cfg s s'"
          unfolding Cons [symmetric] by blast
        with low(1) [OF 2] show ?thesis by simp
      qed
    qed
    have F5: "\<forall>r \<in> set (roots Q). heap st' r = heap st r"
    proof
      fix r assume r: "r \<in> set (roots Q)"
      then have "heap st' r = heap st2 r" by (intro I5) simp
      also have "\<dots> = heap st r"
        using r rk d by (intro D1) auto
      finally show "heap st' r = heap st r" .
    qed
    have "?a \<notin> set (nodes (T' # Q'))"
      unfolding Cons [symmetric] using d(1,2) by simp
    with I(3) Da have "heap st' ?a = heap st1 ?a" by simp
    with st1(5) s(1) have F6: "if ?fl
        then (\<exists>s s'. heap st ?a = Some s \<and> heap st' ?a = Some s' \<and> cleaned_of ev cfg s s')
        else heap st' ?a = heap st ?a"
      by (cases ?fl) auto
    from F1 F2 F3 F4 F5 F6 show ?thesis
      by (intro exI [of _ st']) simp
  qed
qed


section \<open>The counter of the traversal\<close>

lemma traverse_tree:
  assumes "shaped (heap st) t" and "distinct (addrs t)"
    and "\<forall>d \<in> set (nodes (kids t)). pending_raw (heap st) d"
    and "flagged (heap st) (root_of t) \<longrightarrow> (\<exists>s. heap st (root_of t) = Some s \<and> wf_raw s)"
  shows "\<exists>st'. traverseSuites ev cfg st (root_of t) = Some (Inr st')
      \<and> total st' = total st
           + int ((if flagged (heap st) (root_of t) then n_tests (heap st) (root_of t) else 0)
                  + sum_list (map (n_tests (heap st)) (nodes (kids t))))
      \<and> (\<forall>d \<in> set (nodes (kids t)).
            \<exists>s s'. heap st d = Some s \<and> heap st' d = Some s' \<and> cleaned_of ev cfg s s')
      \<and> (if flagged (heap st) (root_of t)
          then (\<exists>s s'. heap st (root_of t) = Some s \<and> heap st' (root_of t) = Some s'
                  \<and> cleaned_of ev cfg s s')
          else heap st' (root_of t) = heap st (root_of t))"
proof -
  have 1: "distinct (nodes (t # []))" using assms(2) by (simp add: addrs_kids)
  have 2: "\<forall>u \<in> set (t # []). shaped (heap st) u" using assms(1) by simp
  have 3: "\<forall>d \<in> set (below (t # [])). pending_raw (heap st) d" using assms(3) by simp
  have 4: "\<forall>r \<in> set (roots []). \<not> flagged (heap st) r" by simp
  from traverse_forest [OF 1 2 3 4 assms(4), of ev cfg] show ?thesis
    by (auto simp add: traverseSuites_def)
qed

definition demo_tree :: stree where
  "demo_tree = Node 0 [Node 1 []]"

lemma demo_heap_at:
  "demo_heap 0 = Some (raw_suite [] None [] [1] True)"
  "demo_heap 1 = Some (raw_suite (js ''math'') (Some (js ''/work/test/math.js''))
                         [Raw demo_passed, Raw demo_failed] [] False)"
  "demo_heap (Suc 0) = Some (raw_suite (js ''math'') (Some (js ''/work/test/math.js''))
                         [Raw demo_passed, Raw demo_failed] [] False)"
  by (simp_all add: demo_heap_def)

lemma raw_suite_fields:
  "wf_raw (raw_suite title file tests suites root)"
  "s_root (raw_suite title file tests suites root) = Some root"
  "s_suites (raw_suite title file tests suites root) = Some suites"
  "s_tests (raw_suite title file tests suites root) = Some tests"
  by (simp_all add: raw_suite_def wf_raw_def)

lemma demo_tree_facts:
  "shaped (heap demo_state) demo_tree" "distinct (addrs demo_tree)"
  "flagged (heap demo_state) 0" "\<not> flagged (heap demo_state) 1"
  "pending_raw (heap demo_state) 1"
  "n_tests (heap demo_state) 0 = 0" "n_tests (heap demo_state) 1 = 2"
  by (simp_all add: demo_state_def demo_tree_def demo_heap_at raw_suite_fields flagged_def
      pending_raw_def n_tests_def)

text \<open>
  Where the counter is right.  For a finite acyclic tree of raw suites whose root is flagged
  root and in which no other suite is, \<open>traverseSuites\<close> returns and has added to the counter
  the sum of \<open>tests.length\<close> over every suite of the tree; with a fresh counter the total is
  that sum.
\<close>

theorem traverseSuites_counts_every_suite:
  "shaped (heap st) t \<and> distinct (addrs t)
   \<and> (\<forall>a \<in> set (addrs t). \<exists>s. heap st a = Some s \<and> wf_raw s)
   \<and> flagged (heap st) (root_of t)
   \<and> (\<forall>a \<in> set (addrs t). a \<noteq> root_of t \<longrightarrow> \<not> flagged (heap st) a)
   \<longrightarrow> (\<exists>st'. traverseSuites ev cfg st (root_of t) = Some (Inr st')
          \<and> total st' = total st + int (sum_list (map (n_tests (heap st)) (addrs t))))"
proof (intro impI, elim conjE)
  assume a: "shaped (heap st) t" "distinct (addrs t)"
    "\<forall>a \<in> set (addrs t). \<exists>s. heap st a = Some s \<and> wf_raw s"
    "flagged (heap st) (root_of t)"
    "\<forall>a \<in> set (addrs t). a \<noteq> root_of t \<longrightarrow> \<not> flagged (heap st) a"
  have 3: "\<forall>d \<in> set (nodes (kids t)). pending_raw (heap st) d"
  proof
    fix d assume d: "d \<in> set (nodes (kids t))"
    with a(2) have "d \<in> set (addrs t)" "d \<noteq> root_of t"
      by (auto simp: addrs_kids)
    with a(3,5) show "pending_raw (heap st) d"
      by (fastforce simp: pending_raw_def flagged_def)
  qed
  have 4: "flagged (heap st) (root_of t) \<longrightarrow> (\<exists>s. heap st (root_of t) = Some s \<and> wf_raw s)"
    using a(3) root_in_addrs by blast
  from traverse_tree [OF a(1,2) 3 4, of ev cfg] a(4)
  show "\<exists>st'. traverseSuites ev cfg st (root_of t) = Some (Inr st')
          \<and> total st' = total st + int (sum_list (map (n_tests (heap st)) (addrs t)))"
    by (auto simp add: addrs_kids)
qed

theorem traverseSuites_counts_every_suite_witness:
  "total demo_state = 0
   \<and> (\<exists>st'. traverseSuites demo_env demo_config demo_state (root_of demo_tree) = Some (Inr st')
          \<and> total st' = 2)"
proof -
  have "\<forall>a \<in> set (addrs demo_tree). \<exists>s. heap demo_state a = Some s \<and> wf_raw s"
    by (simp add: demo_tree_def demo_state_def demo_heap_at raw_suite_fields)
  moreover have "\<forall>a \<in> set (addrs demo_tree). a \<noteq> root_of demo_tree \<longrightarrow> \<not> flagged (heap demo_state) a"
    using demo_tree_facts(4) by (simp add: demo_tree_def)
  moreover have "flagged (heap demo_state) (root_of demo_tree)"
    using demo_tree_facts(3) by (simp add: demo_tree_def)
  ultimately have "\<exists>st'. traverseSuites demo_env demo_config demo_state (root_of demo_tree) = Some (Inr st')
      \<and> total st' = total demo_state
           + int (sum_list (map (n_tests (heap demo_state)) (addrs demo_tree)))"
    using traverseSuites_counts_every_suite [of demo_state demo_tree demo_env demo_config]
      demo_tree_facts(1,2) by blast
  moreover have "sum_list (map (n_tests (heap demo_state)) (addrs demo_tree)) = 2"
    using demo_tree_facts(6,7) by (simp add: demo_tree_def)
  moreover have "total demo_state = 0" by (simp add: demo_state_def)
  ultimately show ?thesis by simp
qed


text \<open>
  A suite with one child that is flagged root: the child is normalized as a child, and
  again when it is taken from the queue; the second \<open>cleanSuite\<close> finds the hook arrays
  deleted and throws.  At the throw the counter holds the tests of the suite (when it was
  normalized) and of the child, and no other suite has been touched.
\<close>

lemma traverse_flagged_child_throws:
  assumes "heap st a = Some s" and "s_root s = Some True \<longrightarrow> wf_raw s"
    and "s_suites s = Some [k]" and "k \<noteq> a"
    and "heap st k = Some sk" and "wf_raw sk" and "s_root sk = Some True"
  shows "\<exists>st'. traverseSuites ev cfg st a = Some (Inl (TypeError, st'))
      \<and> total st' = total st
           + int ((if s_root s = Some True then n_tests (heap st) a else 0) + n_tests (heap st) k)
      \<and> (\<forall>b. b \<noteq> a \<and> b \<noteq> k \<longrightarrow> heap st' b = heap st b)"
proof -
  have "\<exists>st1 s1. (if s_root s = Some True then cleanSuite ev cfg st a else Inr st) = Inr st1
      \<and> heap st1 a = Some s1 \<and> s_suites s1 = Some [k] \<and> (\<forall>b. b \<noteq> a \<longrightarrow> heap st1 b = heap st b)
      \<and> total st1 = total st + int (if s_root s = Some True then n_tests (heap st) a else 0)"
  proof (cases "s_root s = Some True")
    case True
    with assms(2) have "wf_raw s" by simp
    from cleanSuite_wf [OF assms(1) this, of ev cfg] obtain st1 s1
      where "cleanSuite ev cfg st a = Inr st1" "heap st1 = (heap st)(a \<mapsto> s1)"
        "total st1 = total st + int (n_tests (heap st) a)" "cleaned_of ev cfg s s1"
      by blast
    with True assms(3) show ?thesis
      by (intro exI [of _ st1] exI [of _ s1]) (simp add: cleaned_of_def)
  next
    case False
    with assms show ?thesis by simp
  qed
  then obtain st1 s1 where st1:
    "(if s_root s = Some True then cleanSuite ev cfg st a else Inr st) = Inr st1"
    "heap st1 a = Some s1" "s_suites s1 = Some [k]" "\<forall>b. b \<noteq> a \<longrightarrow> heap st1 b = heap st b"
    "total st1 = total st + int (if s_root s = Some True then n_tests (heap st) a else 0)"
    by blast
  from st1(4) assms(4,5) have k1: "heap st1 k = Some sk" by simp
  from cleanSuite_wf [OF k1 assms(6), of ev cfg] obtain st2 sk'
    where st2: "cleanSuite ev cfg st1 k = Inr st2" "heap st2 = (heap st1)(k \<mapsto> sk')"
      "total st2 = total st1 + int (n_tests (heap st1) k)" "cleaned_of ev cfg sk sk'"
    by blast
  then have e: "each_suite ev cfg st1 [] [k] = Inr (st2, [k])" by simp
  have k: "heap st2 k = Some sk'" "s_root sk' = Some True" "s_beforeAll sk' = None"
    using st2(2,4) assms(7) by (simp_all add: cleaned_of_def)
  let ?st' = "\<lparr>heap = (heap st2)(k \<mapsto> sk'\<lparr>s_uuid := Some (uuid_v4 ev (drawn st2))\<rparr>),
               total = total st2, drawn = Suc (drawn st2)\<rparr>"
  have "traverse_loop ev cfg st [] a = traverse_loop ev cfg st2 [] k"
    using traverse_loop_unfold [OF assms(1) st1(1,2,3) e] by simp
  also have "\<dots> = Some (Inl (TypeError, ?st'))"
    using k cleanSuite_cleaned [OF k(1,3), of ev cfg]
    by (subst traverse_loop.simps) simp
  finally have run: "traverseSuites ev cfg st a = Some (Inl (TypeError, ?st'))"
    by (simp add: traverseSuites_def)
  have "n_tests (heap st1) k = n_tests (heap st) k"
    using st1(4) assms(4) by (simp add: n_tests_def)
  with st1(5) st2(3) have tot: "total ?st' = total st
      + int ((if s_root s = Some True then n_tests (heap st) a else 0) + n_tests (heap st) k)"
    by simp
  have frame: "\<forall>b. b \<noteq> a \<and> b \<noteq> k \<longrightarrow> heap ?st' b = heap st b"
    using st1(4) st2(2) by simp
  from run tot frame show ?thesis by blast
qed

text \<open>
  Three nested suites, the middle one with an empty title and flagged root; the outer one
  is flagged root or not.  The middle suite and the inner suite have one test each.
\<close>

definition nested_heap :: "bool \<Rightarrow> heap" where
  "nested_heap r =
     [0 \<mapsto> raw_suite (if r then [] else js ''outer'') None [] [1] r,
      1 \<mapsto> raw_suite [] None [Raw demo_passed] [2] True,
      2 \<mapsto> raw_suite (js ''inner'') None [Raw demo_passed] [] False]"

definition nested_state :: "bool \<Rightarrow> state" where
  "nested_state r = \<lparr>heap = nested_heap r, total = 0, drawn = 0\<rparr>"

definition nested_tree :: stree where
  "nested_tree = Node 0 [Node 1 [Node 2 []]]"

lemma nested_heap_at:
  "nested_heap r 0 = Some (raw_suite (if r then [] else js ''outer'') None [] [1] r)"
  "nested_heap r 1 = Some (raw_suite [] None [Raw demo_passed] [2] True)"
  "nested_heap r (Suc 0) = Some (raw_suite [] None [Raw demo_passed] [2] True)"
  "nested_heap r 2 = Some (raw_suite (js ''inner'') None [Raw demo_passed] [] False)"
  by (simp_all add: nested_heap_def)

lemma nested_tree_facts:
  "shaped (heap (nested_state r)) nested_tree" "distinct (addrs nested_tree)"
  "flagged (heap (nested_state r)) (root_of nested_tree) = r"
  "sum_list (map (n_tests (heap (nested_state r))) (addrs nested_tree)) = 2"
  "sum_list (map (n_tests (heap (nested_state r))) (nodes (kids nested_tree))) = 2"
  "wf_raw (the (heap (nested_state r) 2))"
  by (simp_all add: nested_state_def nested_tree_def nested_heap_at raw_suite_fields flagged_def
      n_tests_def)

lemma nested_throws:
  "\<exists>st'. traverseSuites ev cfg (nested_state r) (root_of nested_tree) = Some (Inl (TypeError, st'))
      \<and> total st' = 1 \<and> heap st' 2 = heap (nested_state r) 2"
proof -
  let ?s = "raw_suite (if r then [] else js ''outer'') None [] [1] r"
  let ?sk = "raw_suite [] None [Raw demo_passed] [2] True"
  have 1: "heap (nested_state r) 0 = Some ?s" "heap (nested_state r) 1 = Some ?sk"
    by (simp_all add: nested_state_def nested_heap_at)
  have 2: "s_root ?s = Some True \<longrightarrow> wf_raw ?s" "s_suites ?s = Some [1]" "(1::nat) \<noteq> 0"
    "wf_raw ?sk" "s_root ?sk = Some True"
    by (simp_all add: raw_suite_fields)
  from traverse_flagged_child_throws [OF 1(1) 2(1,2,3) 1(2) 2(4,5), of ev cfg]
  obtain st' where st': "traverseSuites ev cfg (nested_state r) 0 = Some (Inl (TypeError, st'))"
    "total st' = total (nested_state r)
       + int ((if s_root ?s = Some True then n_tests (heap (nested_state r)) 0 else 0)
              + n_tests (heap (nested_state r)) 1)"
    "\<forall>b. b \<noteq> 0 \<and> b \<noteq> 1 \<longrightarrow> heap st' b = heap (nested_state r) b"
    by blast
  have "n_tests (heap (nested_state r)) 0 = 0" "n_tests (heap (nested_state r)) 1 = 1"
    "total (nested_state r) = 0"
    by (simp_all add: nested_state_def nested_heap_at raw_suite_fields n_tests_def)
  with st'(2) have "total st' = 1" by simp
  moreover from st'(3) have "heap st' 2 = heap (nested_state r) 2" by simp
  ultimately show ?thesis using st'(1) by (auto simp add: nested_tree_def)
qed

text \<open>
  C1.  The claim fails on the code for a finite acyclic tree whose root is flagged root and
  whose child, a suite with an empty title, is flagged root too.  The tree has two tests, one
  in the child and one in the grandchild.  \<open>traverseSuites\<close>, run with a fresh counter, throws
  a \<open>TypeError\<close> when it takes the child from the queue; the counter is then 1, not 2, and
  the grandchild is as it was, raw.
\<close>

theorem traverseSuites_nested_root_throws:
  "shaped (heap (nested_state True)) nested_tree \<and> distinct (addrs nested_tree)
   \<and> flagged (heap (nested_state True)) (root_of nested_tree)
   \<and> total (nested_state True) = 0
   \<and> sum_list (map (n_tests (heap (nested_state True))) (addrs nested_tree)) = 2
   \<and> (\<exists>st'. traverseSuites demo_env demo_config (nested_state True) (root_of nested_tree)
               = Some (Inl (TypeError, st'))
          \<and> total st' = 1 \<and> heap st' 2 = heap (nested_state True) 2
          \<and> wf_raw (the (heap st' 2)))"
proof -
  from nested_throws [of demo_env demo_config True] obtain st'
    where "traverseSuites demo_env demo_config (nested_state True) (root_of nested_tree)
             = Some (Inl (TypeError, st'))"
      "total st' = 1" "heap st' 2 = heap (nested_state True) 2"
    by blast
  moreover have "total (nested_state True) = 0" by (simp add: nested_state_def)
  ultimately show ?thesis
    using nested_tree_facts by auto
qed

section \<open>An argument suite that is not flagged root\<close>

text \<open>
  C10.  The claim fails on the code when a suite below the argument is flagged root.  The
  argument suite is not flagged root, its child is, and the child and the grandchild have
  one test each.  \<open>traverseSuites\<close> throws a \<open>TypeError\<close> when it takes the child from the
  queue.  The argument suite is left as it was, as the claim says; but the grandchild is not
  normalized, it is still raw, and its test is not counted: the counter is 1, not 2.
\<close>

theorem traverseSuites_unflagged_throws:
  "\<not> flagged (heap (nested_state False)) (root_of nested_tree)
   \<and> shaped (heap (nested_state False)) nested_tree \<and> distinct (addrs nested_tree)
   \<and> total (nested_state False) = 0
   \<and> sum_list (map (n_tests (heap (nested_state False))) (nodes (kids nested_tree))) = 2
   \<and> (\<exists>st'. traverseSuites demo_env demo_config (nested_state False) (root_of nested_tree)
               = Some (Inl (TypeError, st'))
          \<and> total st' = 1 \<and> heap st' 2 = heap (nested_state False) 2
          \<and> wf_raw (the (heap st' 2)))"
proof -
  from nested_throws [of demo_env demo_config False] obtain st'
    where "traverseSuites demo_env demo_config (nested_state False) (root_of nested_tree)
             = Some (Inl (TypeError, st'))"
      "total st' = 1" "heap st' 2 = heap (nested_state False) 2"
    by blast
  moreover have "total (nested_state False) = 0" by (simp add: nested_state_def)
  ultimately show ?thesis
    using nested_tree_facts by auto
qed

text \<open>
  Where the descendants are all normalized.  If the argument suite is not flagged root, and
  the suites below it form a finite acyclic tree of raw suites none of which is flagged root,
  then \<open>traverseSuites\<close> returns, the argument suite is left as it was and its tests are not
  counted, and every suite below it is normalized and its tests are counted.
\<close>

theorem traverseSuites_skips_unflagged_argument:
  "shaped (heap st) t \<and> distinct (addrs t) \<and> \<not> flagged (heap st) (root_of t)
   \<and> (\<forall>d \<in> set (nodes (kids t)). pending_raw (heap st) d)
   \<longrightarrow> (\<exists>st'. traverseSuites ev cfg st (root_of t) = Some (Inr st')
          \<and> heap st' (root_of t) = heap st (root_of t)
          \<and> total st' = total st + int (sum_list (map (n_tests (heap st)) (nodes (kids t))))
          \<and> (\<forall>d \<in> set (nodes (kids t)).
                \<exists>s s'. heap st d = Some s \<and> heap st' d = Some s' \<and> cleaned_of ev cfg s s'))"
proof (intro impI, elim conjE)
  assume a: "shaped (heap st) t" "distinct (addrs t)" "\<not> flagged (heap st) (root_of t)"
    "\<forall>d \<in> set (nodes (kids t)). pending_raw (heap st) d"
  then have "flagged (heap st) (root_of t) \<longrightarrow> (\<exists>s. heap st (root_of t) = Some s \<and> wf_raw s)"
    by simp
  from traverse_tree [OF a(1,2,4) this, of ev cfg] a(3)
  show "\<exists>st'. traverseSuites ev cfg st (root_of t) = Some (Inr st')
          \<and> heap st' (root_of t) = heap st (root_of t)
          \<and> total st' = total st + int (sum_list (map (n_tests (heap st)) (nodes (kids t))))
          \<and> (\<forall>d \<in> set (nodes (kids t)).
                \<exists>s s'. heap st d = Some s \<and> heap st' d = Some s' \<and> cleaned_of ev cfg s s')"
    by auto
qed

definition plain_state :: state where
  "plain_state =
     \<lparr>heap = [0 \<mapsto> raw_suite (js ''outer'') None [Raw demo_passed] [1] False,
              1 \<mapsto> raw_suite (js ''math'') None [Raw demo_passed, Raw demo_failed] [] False],
      total = 0, drawn = 0\<rparr>"

lemma plain_state_at:
  "heap plain_state 0 = Some (raw_suite (js ''outer'') None [Raw demo_passed] [1] False)"
  "heap plain_state 1 = Some (raw_suite (js ''math'') None [Raw demo_passed, Raw demo_failed] [] False)"
  "heap plain_state (Suc 0) = Some (raw_suite (js ''math'') None [Raw demo_passed, Raw demo_failed] [] False)"
  by (simp_all add: plain_state_def)

theorem traverseSuites_skips_unflagged_argument_witness:
  "\<not> flagged (heap plain_state) (root_of demo_tree)
   \<and> (\<exists>st'. traverseSuites demo_env demo_config plain_state (root_of demo_tree) = Some (Inr st')
          \<and> heap st' 0 = heap plain_state 0 \<and> total st' = 2
          \<and> (\<exists>s s'. heap plain_state 1 = Some s \<and> heap st' 1 = Some s'
                \<and> cleaned_of demo_env demo_config s s'))"
proof -
  have 1: "shaped (heap plain_state) demo_tree" "distinct (addrs demo_tree)"
    "\<not> flagged (heap plain_state) (root_of demo_tree)"
    by (simp_all add: demo_tree_def plain_state_at raw_suite_fields flagged_def)
  have 2: "\<forall>d \<in> set (nodes (kids demo_tree)). pending_raw (heap plain_state) d"
    by (simp add: demo_tree_def plain_state_at raw_suite_fields pending_raw_def)
  have 3: "sum_list (map (n_tests (heap plain_state)) (nodes (kids demo_tree))) = 2"
    by (simp add: demo_tree_def plain_state_at raw_suite_fields n_tests_def)
  have 4: "total plain_state = 0" by (simp add: plain_state_def)
  from traverseSuites_skips_unflagged_argument [of plain_state demo_tree demo_env demo_config] 1 2
  obtain st' where "traverseSuites demo_env demo_config plain_state (root_of demo_tree) = Some (Inr st')"
    "heap st' (root_of demo_tree) = heap plain_state (root_of demo_tree)"
    "total st' = total plain_state
       + int (sum_list (map (n_tests (heap plain_state)) (nodes (kids demo_tree))))"
    "\<forall>d \<in> set (nodes (kids demo_tree)).
        \<exists>s s'. heap plain_state d = Some s \<and> heap st' d = Some s' \<and> cleaned_of demo_env demo_config s s'"
    by blast
  with 1(3) 3 4 show ?thesis
    by (intro conjI exI [of _ st']) (simp_all add: demo_tree_def)
qed


section \<open>The example of the specification\<close>

text \<open>The state the traversal of the example tree returns.\<close>

definition demo_final :: state where
  "demo_final =
     (case traverseSuites demo_env demo_config demo_state 0 of
        Some (Inr st') \<Rightarrow> st'
      | _ \<Rightarrow> demo_state)"

text \<open>\<open>suite.tests[i].err.diff\<close> of a normalized suite.\<close>

definition test_diff :: "suite \<Rightarrow> nat \<Rightarrow> jsval" where
  "test_diff s i =
     (case s_tests s of
        None \<Rightarrow> JUndefined
      | Some ts \<Rightarrow>
          (case ts ! i of
             Raw t \<Rightarrow> JUndefined
           | Clean c \<Rightarrow> (case c_err c of None \<Rightarrow> JUndefined | Some ne \<Rightarrow> n_diff ne)))"

lemma cleanTest_demo_failed:
  "\<exists>ne. c_err (fst (cleanTest_raw demo_env demo_config h n demo_failed)) = Some ne
      \<and> n_diff ne = JStr (js ''- foo'' @ [10] @ js ''+ bar'' @ [10])"
  by (simp add: cleanTest_raw_def demo_failed_def demo_test_def demo_err_strings_def
      normalizeErr_def sameType_def demo_config_def createUnifiedDiff_err_def Let_def
      demo_env_def demo_diff_foo_bar split_beta)

lemma demo_run:
  "traverseSuites demo_env demo_config demo_state 0 = Some (Inr demo_final)"
  "total demo_final = 2"
  "\<exists>s'. heap demo_final 0 = Some s' \<and> cleaned_of demo_env demo_config (raw_suite [] None [] [1] True) s'"
  "\<exists>s'. heap demo_final 1 = Some s'
      \<and> cleaned_of demo_env demo_config
           (raw_suite (js ''math'') (Some (js ''/work/test/math.js''))
              [Raw demo_passed, Raw demo_failed] [] False) s'"
proof -
  have 3: "\<forall>d \<in> set (nodes (kids demo_tree)). pending_raw (heap demo_state) d"
    using demo_tree_facts(5) by (simp add: demo_tree_def)
  have 4: "flagged (heap demo_state) (root_of demo_tree) \<longrightarrow>
      (\<exists>s. heap demo_state (root_of demo_tree) = Some s \<and> wf_raw s)"
    by (simp add: demo_tree_def demo_state_def demo_heap_at raw_suite_fields)
  from traverse_tree [OF demo_tree_facts(1,2) 3 4, of demo_env demo_config] demo_tree_facts(3)
  obtain st' where st': "traverseSuites demo_env demo_config demo_state 0 = Some (Inr st')"
    "total st' = total demo_state + int (n_tests (heap demo_state) 0
        + sum_list (map (n_tests (heap demo_state)) (nodes (kids demo_tree))))"
    "\<forall>d \<in> set (nodes (kids demo_tree)).
        \<exists>s s'. heap demo_state d = Some s \<and> heap st' d = Some s' \<and> cleaned_of demo_env demo_config s s'"
    "\<exists>s s'. heap demo_state 0 = Some s \<and> heap st' 0 = Some s' \<and> cleaned_of demo_env demo_config s s'"
    by (auto simp add: demo_tree_def)
  from st'(1) have f: "demo_final = st'" by (simp add: demo_final_def)
  show "traverseSuites demo_env demo_config demo_state 0 = Some (Inr demo_final)"
    using st'(1) f by simp
  show "total demo_final = 2"
    using st'(2) demo_tree_facts(6,7) unfolding f by (simp add: demo_tree_def demo_state_def)
  show "\<exists>s'. heap demo_final 0 = Some s' \<and> cleaned_of demo_env demo_config (raw_suite [] None [] [1] True) s'"
    using st'(4) unfolding f by (simp add: demo_state_def demo_heap_at)
  from st'(3) have "\<exists>s s'. heap demo_state 1 = Some s \<and> heap st' 1 = Some s' \<and> cleaned_of demo_env demo_config s s'"
    by (simp add: demo_tree_def)
  then show "\<exists>s'. heap demo_final 1 = Some s'
      \<and> cleaned_of demo_env demo_config
           (raw_suite (js ''math'') (Some (js ''/work/test/math.js''))
              [Raw demo_passed, Raw demo_failed] [] False) s'"
    unfolding f by (simp add: demo_state_def demo_heap_at)
qed

lemma demo_report:
  "s_totalTests (the (heap demo_final 0)) = Some 0"
  "s_totalTests (the (heap demo_final 1)) = Some 2"
  "test_diff (the (heap demo_final 1)) 1 = JStr (js ''- foo'' @ [10] @ js ''+ bar'' @ [10])"
proof -
  from demo_run(3) show "s_totalTests (the (heap demo_final 0)) = Some 0"
    by (auto simp add: cleaned_of_def raw_suite_fields)
  from demo_run(4) obtain s' where s': "heap demo_final 1 = Some s'"
    "cleaned_of demo_env demo_config
       (raw_suite (js ''math'') (Some (js ''/work/test/math.js''))
          [Raw demo_passed, Raw demo_failed] [] False) s'"
    by blast
  then show "s_totalTests (the (heap demo_final 1)) = Some 2"
    by (simp add: cleaned_of_def raw_suite_fields)
  from s'(2) obtain h n where
    "s_tests s' = Some (map Clean (fst (cleaned_list demo_env demo_config h n [Raw demo_passed, Raw demo_failed])))"
    by (auto simp add: cleaned_of_def raw_suite_fields)
  then obtain c n' where t: "s_tests s' = Some [Clean c, Clean (fst (cleanTest_raw demo_env demo_config h n' demo_failed))]"
    by (simp add: split_beta Let_def)
  from cleanTest_demo_failed [of h n'] obtain ne
    where "c_err (fst (cleanTest_raw demo_env demo_config h n' demo_failed)) = Some ne"
      "n_diff ne = JStr (js ''- foo'' @ [10] @ js ''+ bar'' @ [10])"
    by blast
  with t s'(1) show "test_diff (the (heap demo_final 1)) 1 = JStr (js ''- foo'' @ [10] @ js ''+ bar'' @ [10])"
    by (simp add: test_diff_def)
qed

lemma demo_diff_lines:
  "js ''- foo'' \<in> set (split_nl (js ''- foo'' @ [10] @ js ''+ bar'' @ [10]))"
  "js ''+ bar'' \<in> set (split_nl (js ''- foo'' @ [10] @ js ''+ bar'' @ [10]))"
  "js '' -foo'' \<notin> set (split_nl (js ''- foo'' @ [10] @ js ''+ bar'' @ [10]))"
  "js '' +bar'' \<notin> set (split_nl (js ''- foo'' @ [10] @ js ''+ bar'' @ [10]))"
  "js ''- foo'' @ [10] @ js ''+ bar'' @ [10] \<noteq> []"
  by (simp_all add: split_nl_def js_def)

text \<open>
  C7, counterexample.  In the example the diff of the failed test is the two lines \<open>- foo\<close>
  and \<open>+ bar\<close> and an empty last line; it has no line \<open> -foo\<close> and no line \<open> +bar\<close>.
\<close>

theorem example_diff_spacing_counterexample:
  "test_diff (the (heap demo_final 1)) 1 = JStr (js ''- foo'' @ [10] @ js ''+ bar'' @ [10])
   \<and> js '' -foo'' \<notin> set (split_nl (js ''- foo'' @ [10] @ js ''+ bar'' @ [10]))
   \<and> js '' +bar'' \<notin> set (split_nl (js ''- foo'' @ [10] @ js ''+ bar'' @ [10]))"
  using demo_report(3) demo_diff_lines(3,4) by blast

text \<open>
  C7, amended.  In the example (root suite, one child suite with a passed test and a test
  failed with \<open>actual = "foo"\<close>, \<open>expected = "bar"\<close>, unified diffs) the traversal returns with
  \<open>root.totalTests = 0\<close>, \<open>child.totalTests = 2\<close> and \<open>counter.total = 2\<close>, and the diff of the
  failed test is a non-empty string with the lines \<open>- foo\<close> and \<open>+ bar\<close>: the marker, a space,
  the text.
\<close>

theorem example_report:
  "traverseSuites demo_env demo_config demo_state 0 = Some (Inr demo_final)
   \<and> s_totalTests (the (heap demo_final 0)) = Some 0
   \<and> s_totalTests (the (heap demo_final 1)) = Some 2
   \<and> total demo_final = 2
   \<and> test_diff (the (heap demo_final 1)) 1 = JStr (js ''- foo'' @ [10] @ js ''+ bar'' @ [10])
   \<and> js ''- foo'' @ [10] @ js ''+ bar'' @ [10] \<noteq> []
   \<and> js ''- foo'' \<in> set (split_nl (js ''- foo'' @ [10] @ js ''+ bar'' @ [10]))
   \<and> js ''+ bar'' \<in> set (split_nl (js ''- foo'' @ [10] @ js ''+ bar'' @ [10]))"
  using demo_run(1,2) demo_report demo_diff_lines(1,2,5) by blast


section \<open>The statements above on the example\<close>

lemma demo_cleanSuite:
  "\<exists>st' s'. cleanSuite demo_env demo_config demo_state 1 = Inr st'
      \<and> heap st' = (heap demo_state)(1 \<mapsto> s')
      \<and> cleaned_of demo_env demo_config
           (raw_suite (js ''math'') (Some (js ''/work/test/math.js''))
              [Raw demo_passed, Raw demo_failed] [] False) s'"
proof -
  have "heap demo_state 1 = Some (raw_suite (js ''math'') (Some (js ''/work/test/math.js''))
              [Raw demo_passed, Raw demo_failed] [] False)"
    by (simp add: demo_state_def demo_heap_at)
  from cleanSuite_wf [OF this raw_suite_fields(1), of demo_env demo_config]
  show ?thesis by blast
qed

theorem uuid_preserved_or_fresh_witness:
  "truthy_str (t_uuid (demo_test\<lparr>t_uuid := Some (js ''abc'')\<rparr>))
   \<and> c_uuid (fst (cleanTest_raw demo_env demo_config Map.empty 0
                    (demo_test\<lparr>t_uuid := Some (js ''abc'')\<rparr>))) = js ''abc''
   \<and> c_uuid (fst (cleanTest_raw demo_env demo_config Map.empty 5
                    (fst (snd (cleanTest_raw demo_env demo_config Map.empty 0
                                 (demo_test\<lparr>t_uuid := Some (js ''abc'')\<rparr>)))))) = js ''abc''
   \<and> (\<exists>st' s'. cleanSuite demo_env demo_config demo_state 1 = Inr st' \<and> heap st' 1 = Some s'
         \<and> s_uuid s' = Some (demo_uuid 0))"
proof -
  let ?t = "demo_test\<lparr>t_uuid := Some (js ''abc'')\<rparr>"
  have t: "truthy_str (t_uuid ?t)" "the (t_uuid ?t) = js ''abc''"
    by (simp_all add: js_def)
  from demo_cleanSuite obtain st' where st': "cleanSuite demo_env demo_config demo_state 1 = Inr st'"
    by blast
  have u: "uuid_v4 demo_env (drawn demo_state) = demo_uuid 0"
    by (simp add: demo_env_def demo_state_def)
  from uuid_preserved_or_fresh [of demo_env demo_config Map.empty 0 ?t Map.empty 5 demo_state 1]
    t st' u
  show ?thesis by auto
qed

theorem normalizers_frame_witness:
  "snd (normalizeErr demo_env demo_config demo_err_strings) = demo_err_strings
   \<and> fst (snd (cleanTest demo_env demo_config Map.empty 0 (Raw demo_passed))) = Raw demo_passed
   \<and> (\<exists>st'. cleanSuite demo_env demo_config demo_state 1 = Inr st'
         \<and> heap st' 0 = heap demo_state 0)"
proof -
  have e: "isString (e_actual demo_err_strings) \<and> isString (e_expected demo_err_strings)"
    by (simp add: demo_err_strings_def)
  have p: "t_err demo_passed = None"
    by (simp add: demo_passed_def demo_test_def)
  from demo_cleanSuite obtain st' where st': "cleanSuite demo_env demo_config demo_state 1 = Inr st'"
    by blast
  from normalizers_frame [of demo_env demo_config demo_err_strings Map.empty 0 demo_passed _ demo_state 1]
    e p st'
  show ?thesis by auto
qed

theorem cleanSuite_keys_witness:
  "''ctx'' \<in> set (own_keys (raw_suite (js ''math'') (Some (js ''/work/test/math.js''))
                              [Raw demo_passed, Raw demo_failed] [] False))
   \<and> (\<exists>st' s'. cleanSuite demo_env demo_config demo_state 1 = Inr st' \<and> heap st' 1 = Some s'
         \<and> set (own_keys s') = set allow_list \<and> ''ctx'' \<notin> set (own_keys s')
         \<and> s_beforeAll s' = None \<and> s_beforeHooks s' = Some [])"
proof -
  let ?s = "raw_suite (js ''math'') (Some (js ''/work/test/math.js''))
              [Raw demo_passed, Raw demo_failed] [] False"
  have h: "heap demo_state 1 = Some ?s"
    by (simp add: demo_state_def demo_heap_at)
  have k: "''ctx'' \<in> set (own_keys ?s)"
    by (simp add: own_keys_def raw_suite_def)
  have a: "''ctx'' \<notin> set allow_list"
    by (simp add: allow_list_def)
  have p: "has (s_title ?s) \<and> has (s_root ?s) \<and> has (s_timeout ?s)"
    by (simp add: raw_suite_def)
  have hooks: "concat_arg (s_beforeAll ?s) @ concat_arg (s_beforeEach ?s) = []"
    by (simp add: raw_suite_def concat_arg_def)
  from demo_cleanSuite obtain st' where st': "cleanSuite demo_env demo_config demo_state 1 = Inr st'"
    by blast
  note K = cleanSuite_keys [of demo_env demo_config demo_state 1 st', THEN mp, OF st']
  from K show ?thesis
  proof (elim exE conjE)
    fix s s' h' n1 bh n2 ah n3
    assume s': "heap demo_state 1 = Some s" "heap st' 1 = Some s'"
      "has (s_title s) \<and> has (s_root s) \<and> has (s_timeout s) \<longrightarrow> set (own_keys s') = set allow_list"
      "s_beforeAll s' = None"
      "map_cleanTest demo_env demo_config h' n1 (concat_arg (s_beforeAll s) @ concat_arg (s_beforeEach s))
          = Inr (bh, n2)"
      "s_beforeHooks s' = Some bh"
    from s'(1) h have s: "s = ?s" by simp
    from s'(5) have "bh = []"
      unfolding s hooks by simp
    with s'(6) have b: "s_beforeHooks s' = Some []" by simp
    from s'(3) p have e: "set (own_keys s') = set allow_list"
      unfolding s by (rule mp)
    have c: "''ctx'' \<notin> set (own_keys s')" unfolding e by (rule a)
    from st' s'(2) e c s'(4) b
    have "\<exists>st' s'. cleanSuite demo_env demo_config demo_state 1 = Inr st' \<and> heap st' 1 = Some s'
         \<and> set (own_keys s') = set allow_list \<and> ''ctx'' \<notin> set (own_keys s')
         \<and> s_beforeAll s' = None \<and> s_beforeHooks s' = Some []"
      by (intro exI [of _ st'] exI [of _ s'] conjI)
    with k show ?thesis by (rule conjI)
  qed
qed

theorem normalizeErr_diff_iff_witness:
  "n_diff (fst (normalizeErr demo_env demo_config demo_err_numbers)) =
     JStr (createUnifiedDiff demo_createPatch (js ''1'') (js ''2''))
   \<and> n_diff (fst (normalizeErr demo_env demo_config (demo_err_numbers\<lparr>e_showDiff := JBool False\<rparr>)))
       = JUndefined"
proof -
  have 1: "sameType (e_actual demo_err_numbers) (e_expected demo_err_numbers)"
    "e_actual demo_err_numbers \<noteq> JUndefined" "e_expected demo_err_numbers \<noteq> JUndefined"
    "e_showDiff demo_err_numbers \<noteq> JBool False" "\<not> useInlineDiffs demo_config"
    by (simp_all add: demo_err_numbers_def sameType_def demo_config_def)
  have 2: "diff_operands demo_env demo_err_numbers = (js ''1'', js ''2'')"
    by (simp add: diff_operands_def demo_err_numbers_def demo_env_def demo_stringify_def)
  have 3: "createPatch demo_env = demo_createPatch" by (simp add: demo_env_def)
  from normalizeErr_diff_iff [of demo_env demo_config demo_err_numbers] 1 2 3
  have a: "n_diff (fst (normalizeErr demo_env demo_config demo_err_numbers)) =
     JStr (createUnifiedDiff demo_createPatch (js ''1'') (js ''2''))"
    by simp
  from normalizeErr_diff_iff [of demo_env demo_config "demo_err_numbers\<lparr>e_showDiff := JBool False\<rparr>"]
  have b: "n_diff (fst (normalizeErr demo_env demo_config (demo_err_numbers\<lparr>e_showDiff := JBool False\<rparr>)))
       = JUndefined"
    by simp
  from a b show ?thesis by simp
qed

theorem cleanTest_skipped_iff_witness:
  "c_skipped (fst (cleanTest demo_env demo_config Map.empty 0
                     (Raw (demo_test\<lparr>t_state := None\<rparr>))))
   \<and> \<not> c_skipped (fst (cleanTest demo_env demo_config Map.empty 0 (Raw demo_test)))"
proof -
  have 1: "\<not> c_pass (fst (cleanTest demo_env demo_config Map.empty 0 (Raw (demo_test\<lparr>t_state := None\<rparr>))))"
    "\<not> c_fail (fst (cleanTest demo_env demo_config Map.empty 0 (Raw (demo_test\<lparr>t_state := None\<rparr>))))"
    "c_pending (fst (cleanTest demo_env demo_config Map.empty 0 (Raw (demo_test\<lparr>t_state := None\<rparr>)))) \<noteq> Some True"
    "\<not> c_isHook (fst (cleanTest demo_env demo_config Map.empty 0 (Raw (demo_test\<lparr>t_state := None\<rparr>))))"
    "c_pass (fst (cleanTest demo_env demo_config Map.empty 0 (Raw demo_test)))"
    by (simp_all add: cleanTest_raw_def demo_test_def split_beta Let_def js_def)
  from cleanTest_skipped_iff [of demo_env demo_config Map.empty 0 "Raw (demo_test\<lparr>t_state := None\<rparr>)"]
    cleanTest_skipped_iff [of demo_env demo_config Map.empty 0 "Raw demo_test"] 1
  show ?thesis by simp
qed

end
